theory Spec2Isabelle
  imports Complex_Main "HOL-Library.Sublist"
begin

section \<open>Python strings\<close>

text \<open>
  A Python \<open>str\<close> is modelled as a \<open>string\<close> (a list of \<open>char\<close>). The model covers
  ASCII text: a character is classified by its code, and a code above 127 is a caseless
  character that is neither a space nor a digit. Python's \<open>str.isspace\<close> (used by
  \<open>str.strip()\<close> and by the regular expression class \<open>\s\<close>) holds on the codes 9 to 13
  and 28 to 32.
\<close>

definition is_space :: "char \<Rightarrow> bool" where
  "is_space c = (let n = (of_char c :: nat) in (9 \<le> n \<and> n \<le> 13) \<or> (28 \<le> n \<and> n \<le> 32))"

definition is_upper_char :: "char \<Rightarrow> bool" where
  "is_upper_char c = (let n = (of_char c :: nat) in 65 \<le> n \<and> n \<le> 90)"

definition is_lower_char :: "char \<Rightarrow> bool" where
  "is_lower_char c = (let n = (of_char c :: nat) in 97 \<le> n \<and> n \<le> 122)"

definition is_digit_char :: "char \<Rightarrow> bool" where
  "is_digit_char c = (let n = (of_char c :: nat) in 48 \<le> n \<and> n \<le> 57)"

definition lower_char :: "char \<Rightarrow> char" where
  "lower_char c = (if is_upper_char c then char_of (of_char c + (32 :: nat)) else c)"

definition upper_char :: "char \<Rightarrow> char" where
  "upper_char c = (if is_lower_char c then char_of (of_char c - (32 :: nat)) else c)"

text \<open>\<open>s.lower()\<close> and \<open>s.upper()\<close>.\<close>

definition lower :: "string \<Rightarrow> string" where
  "lower s = map lower_char s"

definition upper :: "string \<Rightarrow> string" where
  "upper s = map upper_char s"

text \<open>\<open>s.strip(chars)\<close> removes the characters of a class from both ends;
  \<open>s.strip()\<close> removes white space.\<close>

definition strip_where :: "(char \<Rightarrow> bool) \<Rightarrow> string \<Rightarrow> string" where
  "strip_where p s = rev (dropWhile p (rev (dropWhile p s)))"

definition strip :: "string \<Rightarrow> string" where
  "strip s = strip_where is_space s"

definition strip_chars :: "string \<Rightarrow> string \<Rightarrow> string" where
  "strip_chars cs s = strip_where (\<lambda>c. c \<in> set cs) s"

text \<open>\<open>s.startswith(p)\<close>, \<open>s.endswith(p)\<close> and \<open>p in s\<close>.\<close>

definition startswith :: "string \<Rightarrow> string \<Rightarrow> bool" where
  "startswith s p = (take (length p) s = p)"

definition endswith :: "string \<Rightarrow> string \<Rightarrow> bool" where
  "endswith s p = (length p \<le> length s \<and> drop (length s - length p) s = p)"

definition contains :: "string \<Rightarrow> string \<Rightarrow> bool" where
  "contains p s = list_ex (\<lambda>i. startswith (drop i s) p) [0..<Suc (length s)]"

text \<open>\<open>s.isupper()\<close>: some cased character, and no lower-case one.
  \<open>s.isdigit()\<close>: not empty, and digits only.\<close>

definition isupper :: "string \<Rightarrow> bool" where
  "isupper s = (list_ex is_upper_char s \<and> list_all (\<lambda>c. \<not> is_lower_char c) s)"

definition isdigit :: "string \<Rightarrow> bool" where
  "isdigit s = (s \<noteq> [] \<and> list_all is_digit_char s)"

text \<open>\<open>s.rsplit(kw, 1)[0]\<close>: the text before the last occurrence of \<open>kw\<close>, the
  whole of \<open>s\<close> when there is none.\<close>

definition rfind :: "string \<Rightarrow> string \<Rightarrow> nat option" where
  "rfind s kw = find (\<lambda>i. startswith (drop i s) kw) (rev [0..<Suc (length s)])"

definition rsplit1_head :: "string \<Rightarrow> string \<Rightarrow> string" where
  "rsplit1_head s kw = (case rfind s kw of None \<Rightarrow> s | Some i \<Rightarrow> take i s)"

text \<open>\<open>re.split(r"[\s-]+", s)\<close>: the pieces of \<open>s\<close> between the maximal runs of
  white space and hyphens. A run at either end leaves an empty piece there.\<close>

definition is_sep :: "char \<Rightarrow> bool" where
  "is_sep c = (is_space c \<or> c = CHR ''-'')"

function re_split :: "string \<Rightarrow> string list" where
  "re_split s =
     (case dropWhile (\<lambda>c. \<not> is_sep c) s of
        [] \<Rightarrow> [s]
      | r # rs \<Rightarrow> takeWhile (\<lambda>c. \<not> is_sep c) s # re_split (dropWhile is_sep rs))"
  by pat_completeness auto
termination
proof (relation "measure length")
  show "wf (measure length)" by simp
next
  fix s :: string and r rs
  assume "dropWhile (\<lambda>c. \<not> is_sep c) s = r # rs"
  then have "length (r # rs) \<le> length s"
    by (metis length_dropWhile_le)
  moreover have "length (dropWhile is_sep rs) \<le> length rs"
    by (rule length_dropWhile_le)
  ultimately show "(dropWhile is_sep rs, s) \<in> measure length" by simp
qed

declare re_split.simps [simp del]

section \<open>The generic-term filter\<close>

text \<open>\<open>GENERIC_PARTS\<close> of \<open>gene_metadata.py\<close>.\<close>

definition GENERIC_PARTS :: "string list" where
  "GENERIC_PARTS =
     [''single'', ''system'', ''single-system'', ''multi'', ''multisystem'', ''multi-system'',
      ''systemic'', ''common'', ''rare'', ''genetic'', ''hereditary'', ''familial'', ''unknown'',
      ''autosomal'', ''dominant'', ''recessive'', ''tall'', ''stature'', ''short'']"

text \<open>One round of the loop over \<open>("disease", "syndrome", "disorder")\<close>: \<open>Some True\<close> is
  \<open>return True\<close>, \<open>None\<close> goes on to the next keyword.\<close>

definition generic_suffix :: "string \<Rightarrow> string \<Rightarrow> bool option" where
  "generic_suffix t kw =
     (if endswith t kw then
        (let prefix = strip_chars '' -;,'' (rsplit1_head t kw) in
         if prefix \<noteq> [] then
           (if list_all (\<lambda>part. part \<in> set GENERIC_PARTS) (re_split prefix) then Some True
            else None)
         else Some True)
      else None)"

fun generic_suffixes :: "string \<Rightarrow> string list \<Rightarrow> bool option" where
  "generic_suffixes t [] = None"
| "generic_suffixes t (kw # kws) =
     (case generic_suffix t kw of Some b \<Rightarrow> Some b | None \<Rightarrow> generic_suffixes t kws)"

definition is_generic :: "string \<Rightarrow> bool" where
  "is_generic term =
     (let orig = strip term; t = lower orig in
      if endswith orig '' syndrome'' \<and>
         (let prefix = strip_chars '' ,;:-'' (take (length orig - length '' syndrome'') orig)
          in prefix \<noteq> [] \<and> isupper prefix)
      then False
      else if t \<in> set [''disease'', ''syndrome'', ''disorder''] then True
      else
        (case generic_suffixes t [''disease'', ''syndrome'', ''disorder''] of
           Some b \<Rightarrow> b
         | None \<Rightarrow>
             (let parts = re_split t in
              if length parts \<le> 2 \<and> list_all (\<lambda>part. part \<in> set GENERIC_PARTS) parts
              then True else False)))"

section \<open>Replies of the external services\<close>

text \<open>
  The databases are reached through \<open>requests.get\<close>. A call either raises or returns a
  response; the network is a parameter of the model giving the reply to every request
  (URL and query parameters). \<open>resp.json()\<close> is the field \<open>resp_json\<close>, \<open>None\<close> when
  the body does not parse. JSON numbers are integers in the model.
\<close>

datatype json =
    JNull
  | JBool bool
  | JNum int
  | JStr string
  | JArr "json list"
  | JObj "(string \<times> json) list"

text \<open>
  The exceptions that the code can raise, by class. A \<open>ValueError\<close> is either one
  raised with a message, of the class \<open>ValueError\<close> itself, or the \<open>JSONDecodeError\<close>
  that \<open>resp.json()\<close> raises on a body that is not JSON, which is a subclass of
  \<open>ValueError\<close> in Python: an \<open>except ValueError\<close> catches both.
\<close>

datatype value_error = Message string | JSONDecodeError

datatype py_error =
    AttributeError
  | KeyError
  | TypeError
  | IndexError
  | RequestException
  | HTTPError
  | RuntimeError string
  | ValueError value_error
  | OSError

record response =
  status_code :: nat
  resp_text :: string
  resp_json :: "json option"

datatype reply = Raises | Responds response

type_synonym request = "string \<times> (string \<times> string) list"

type_synonym network = "request \<Rightarrow> reply"

text \<open>\<open>d.get(key, default)\<close>: only a dict has \<open>get\<close>.\<close>

fun py_get :: "json \<Rightarrow> string \<Rightarrow> json \<Rightarrow> py_error + json" where
  "py_get (JObj kvs) k d = Inr (case map_of kvs k of Some v \<Rightarrow> v | None \<Rightarrow> d)"
| "py_get _ k d = Inl AttributeError"

text \<open>\<open>v > 0\<close>: defined on numbers and booleans, a \<open>TypeError\<close> elsewhere.\<close>

fun gt_zero :: "json \<Rightarrow> py_error + bool" where
  "gt_zero (JNum n) = Inr (0 < n)"
| "gt_zero (JBool b) = Inr b"
| "gt_zero _ = Inl TypeError"

text \<open>Truth value of a JSON value, as \<open>if v\<close> and \<open>not v\<close> take it.\<close>

fun truthy :: "json \<Rightarrow> bool" where
  "truthy JNull = False"
| "truthy (JBool b) = b"
| "truthy (JNum n) = (n \<noteq> 0)"
| "truthy (JStr s) = (s \<noteq> [])"
| "truthy (JArr xs) = (xs \<noteq> [])"
| "truthy (JObj kvs) = (kvs \<noteq> [])"

definition ebind :: "'e + 'a \<Rightarrow> ('a \<Rightarrow> 'e + 'b) \<Rightarrow> 'e + 'b" where
  "ebind m f = (case m of Inl e \<Rightarrow> Inl e | Inr x \<Rightarrow> f x)"

section \<open>Validation of a disease name\<close>

text \<open>The three \<open>try\<close> blocks of \<open>is_valid_disease_name\<close>. Each one is \<open>True\<close> when it
  reaches its \<open>return True\<close>; an exception inside the block is swallowed.\<close>

definition esearch_url :: string where
  "esearch_url = ''https://eutils.ncbi.nlm.nih.gov/entrez/eutils/esearch.fcgi''"

definition medgen_confirms :: "network \<Rightarrow> string \<Rightarrow> bool" where
  "medgen_confirms net query =
     (case net (esearch_url, [(''db'', ''medgen''), (''term'', query)]) of
        Raises \<Rightarrow> False
      | Responds resp \<Rightarrow> status_code resp = 200 \<and> contains ''<Id>'' (resp_text resp))"

definition mesh_confirms :: "network \<Rightarrow> string \<Rightarrow> bool" where
  "mesh_confirms net query =
     (case net (esearch_url, [(''db'', ''mesh''), (''term'', query @ ''[MeSH Terms]'')]) of
        Raises \<Rightarrow> False
      | Responds resp \<Rightarrow> status_code resp = 200 \<and> contains ''<Id>'' (resp_text resp))"

definition ols_num_found :: "json \<Rightarrow> py_error + bool" where
  "ols_num_found data =
     ebind (py_get data ''response'' (JObj [])) (\<lambda>r.
     ebind (py_get r ''numFound'' (JNum 0)) gt_zero)"

definition ols_confirms :: "network \<Rightarrow> string \<Rightarrow> bool" where
  "ols_confirms net query =
     (case net (''https://www.ebi.ac.uk/ols/api/search'', [(''q'', query), (''ontology'', ''doid'')]) of
        Raises \<Rightarrow> False
      | Responds resp \<Rightarrow>
          if status_code resp = 200 then
            (case resp_json resp of
               None \<Rightarrow> False
             | Some data \<Rightarrow> (case ols_num_found data of Inl e \<Rightarrow> False | Inr b \<Rightarrow> b))
          else False)"

definition is_valid_disease_name :: "network \<Rightarrow> string \<Rightarrow> bool" where
  "is_valid_disease_name net term =
     (let query = strip term in
      if query = [] then False
      else if medgen_confirms net query then True
      else if mesh_confirms net query then True
      else if ols_confirms net query then True
      else False)"

section \<open>The output record\<close>

text \<open>\<open>GeneInfo\<close> of \<open>models.py\<close>.\<close>

record GeneInfo =
  hgnc_id :: string
  gene_symbol :: string
  gene_name :: string
  gene_aliases :: string
  coord_hg38 :: string
  coord_hg19 :: string
  disease :: string

section \<open>Linking diseases to genes\<close>

text \<open>
  A gene is the dict built by \<open>extract_genes\<close>; the key \<open>"diseases"\<close> is absent
  (\<open>None\<close>) until \<open>setdefault\<close> creates it. The list of genes is a list of records, and
  a gene object is named by its position in the list: the genes of one list are distinct
  objects, as \<open>extract_genes\<close> builds them.

  A spaCy document gives its sentences and its entities; an entity carries its label, its
  text, its character offsets and the sentence it lies in.
\<close>

record gene =
  symbol :: string
  hgnc_id :: "nat option"
  mentions :: "(int \<times> int) list"
  diseases :: "string set option"

record span =
  start_char :: int
  end_char :: int

record entity = span +
  ent_label :: string
  ent_text :: string
  sent :: span

record doc =
  sents :: "span list"
  ents :: "entity list"

text \<open>\<open>m_start >= sent_start and m_end <= sent_end\<close>.\<close>

definition mention_within :: "int \<Rightarrow> int \<Rightarrow> int \<times> int \<Rightarrow> bool" where
  "mention_within s e m = (s \<le> fst m \<and> snd m \<le> e)"

definition genes_in_sentence :: "gene list \<Rightarrow> int \<Rightarrow> int \<Rightarrow> nat list" where
  "genes_in_sentence genes s e =
     filter (\<lambda>i. list_ex (mention_within s e) (mentions (genes ! i))) [0..<length genes]"

text \<open>The distance of a gene to the disease: the inner loop stops at the first mention
  of the gene that lies in the sentence. \<open>/ 2\<close> is true division; the midpoints and
  their distances are halves of integers, which a Python \<open>float\<close> holds exactly for
  offsets below \<open>2 ^ 52\<close>, so they are real numbers here.\<close>

definition gene_distance :: "int \<Rightarrow> int \<Rightarrow> real \<Rightarrow> gene \<Rightarrow> real option" where
  "gene_distance s e disease_center g =
     (case find (mention_within s e) (mentions g) of
        None \<Rightarrow> None
      | Some (m_start, m_end) \<Rightarrow>
          (let gene_center = real_of_int (m_start + m_end) / 2
           in Some \<bar>gene_center - disease_center\<bar>))"

text \<open>The loop over \<open>genes_in_sentence\<close>; \<open>min_distance = None\<close> is \<open>float('inf')\<close>.\<close>

fun closest_loop ::
  "gene list \<Rightarrow> int \<Rightarrow> int \<Rightarrow> real \<Rightarrow> nat list \<Rightarrow> nat option \<times> real option \<Rightarrow> nat option \<times> real option"
where
  "closest_loop genes s e dc [] st = st"
| "closest_loop genes s e dc (i # rest) (closest_gene, min_distance) =
     (case gene_distance s e dc (genes ! i) of
        None \<Rightarrow> closest_loop genes s e dc rest (closest_gene, min_distance)
      | Some dst \<Rightarrow>
          if (case min_distance of None \<Rightarrow> True | Some m \<Rightarrow> dst < m)
          then closest_loop genes s e dc rest (Some i, Some dst)
          else closest_loop genes s e dc rest (closest_gene, min_distance))"

text \<open>The set comprehension over one adjacent sentence, and the test \<open>len(...) == 1\<close>
  with \<open>pop()\<close>.\<close>

definition symbols_in :: "gene list \<Rightarrow> span \<Rightarrow> string list" where
  "symbols_in genes s =
     remdups (map symbol
       (filter (\<lambda>g. list_ex (mention_within (start_char s) (end_char s)) (mentions g)) genes))"

definition first_with_symbol :: "gene list \<Rightarrow> string \<Rightarrow> nat option" where
  "first_with_symbol genes symb = find (\<lambda>i. symbol (genes ! i) = symb) [0..<length genes]"

definition unique_gene :: "gene list \<Rightarrow> span \<Rightarrow> nat option" where
  "unique_gene genes s =
     (case symbols_in genes s of [symb] \<Rightarrow> first_with_symbol genes symb | _ \<Rightarrow> None)"

definition sent_index_of :: "span list \<Rightarrow> int \<Rightarrow> nat option" where
  "sent_index_of sentences sent_start =
     find (\<lambda>i. start_char (sentences ! i) = sent_start) [0..<length sentences]"

definition adjacent_gene :: "span list \<Rightarrow> gene list \<Rightarrow> int \<Rightarrow> nat option" where
  "adjacent_gene sentences genes sent_start =
     (case sent_index_of sentences sent_start of
        None \<Rightarrow> None
      | Some sent_index \<Rightarrow>
          (let linked_gene =
                 (if sent_index > 0 then unique_gene genes (sentences ! (sent_index - 1))
                  else None)
           in if linked_gene = None \<and> int sent_index < int (length sentences) - 1
              then unique_gene genes (sentences ! (sent_index + 1))
              else linked_gene))"

text \<open>The gene that one accepted disease entity is linked to, if any.\<close>

definition link_target :: "span list \<Rightarrow> gene list \<Rightarrow> entity \<Rightarrow> nat option" where
  "link_target sentences genes ent =
     (let sent_start = start_char (sent ent);
          sent_end = end_char (sent ent);
          in_sentence = genes_in_sentence genes sent_start sent_end
      in if in_sentence \<noteq> [] then
           (let disease_center = real_of_int (start_char ent + end_char ent) / 2
            in fst (closest_loop genes sent_start sent_end disease_center in_sentence (None, None)))
         else adjacent_gene sentences genes sent_start)"

text \<open>\<open>gene.setdefault("diseases", set()).add(disease_name)\<close>.\<close>

definition diseases_of :: "gene \<Rightarrow> string set" where
  "diseases_of g = (case diseases g of None \<Rightarrow> {} | Some ds \<Rightarrow> ds)"

definition add_disease :: "string \<Rightarrow> gene \<Rightarrow> gene" where
  "add_disease disease_name g = g\<lparr>diseases := Some (insert disease_name (diseases_of g))\<rparr>"

definition disease_name_of :: "entity \<Rightarrow> string" where
  "disease_name_of ent = strip_chars ''.,;:'' (strip (ent_text ent))"

text \<open>The body of the loop over \<open>doc.ents\<close>, and the loop.\<close>

definition associate_one :: "network \<Rightarrow> span list \<Rightarrow> gene list \<Rightarrow> entity \<Rightarrow> gene list" where
  "associate_one net sentences genes ent =
     (if ent_label ent \<noteq> ''DISEASE'' then genes
      else
        (let disease_name = disease_name_of ent in
         if disease_name = [] \<or> is_generic disease_name then genes
         else if \<not> is_valid_disease_name net disease_name then genes
         else
           (case link_target sentences genes ent of
              None \<Rightarrow> genes
            | Some i \<Rightarrow> genes[i := add_disease disease_name (genes ! i)])))"

definition associate_diseases :: "network \<Rightarrow> gene list \<Rightarrow> doc \<Rightarrow> gene list" where
  "associate_diseases net genes d = foldl (associate_one net (sents d)) genes (ents d)"

section \<open>Enrichment lookups\<close>

text \<open>
  \<open>resp.raise_for_status()\<close> raises on the status codes 400 to 599. The text that an
  f-string gives for a JSON value (\<open>str\<close> of a number, of a list and so on) is a parameter
  \<open>fmt\<close> of the functions that build such a string. The headers and the timeout of a
  request are not part of the model.
\<close>

definition raise_for_status :: "response \<Rightarrow> py_error + unit" where
  "raise_for_status resp =
     (if 400 \<le> status_code resp \<and> status_code resp < 600 then Inl HTTPError else Inr ())"

definition hgnc_api :: "network \<Rightarrow> string \<Rightarrow> py_error + json" where
  "hgnc_api net path =
     (case net (''https://rest.genenames.org/'' @ path, []) of
        Raises \<Rightarrow> Inl RequestException
      | Responds resp \<Rightarrow>
          ebind (raise_for_status resp) (\<lambda>_.
            case resp_json resp of None \<Rightarrow> Inl (ValueError JSONDecodeError) | Some data \<Rightarrow> Inr data))"

text \<open>\<open>v[0]\<close> on a value that is true: the first element of a list, the first character
  of a string, a \<open>KeyError\<close> on a dict (its keys are strings), a \<open>TypeError\<close> on a
  number.\<close>

fun py_index0 :: "json \<Rightarrow> py_error + json" where
  "py_index0 (JArr (x # xs)) = Inr x"
| "py_index0 (JArr []) = Inl IndexError"
| "py_index0 (JStr (c # cs)) = Inr (JStr [c])"
| "py_index0 (JStr []) = Inl IndexError"
| "py_index0 (JObj kvs) = Inl KeyError"
| "py_index0 _ = Inl TypeError"

text \<open>\<open>docs = data.get("response", {}).get("docs", [])\<close> and
  \<open>return docs[0] if docs else {}\<close>.\<close>

definition first_doc :: "json \<Rightarrow> py_error + json" where
  "first_doc data =
     ebind (py_get data ''response'' (JObj [])) (\<lambda>r.
     ebind (py_get r ''docs'' (JArr [])) (\<lambda>docs.
       if truthy docs then py_index0 docs else Inr (JObj [])))"

definition fetch_hgnc_by_symbol :: "network \<Rightarrow> string \<Rightarrow> py_error + json" where
  "fetch_hgnc_by_symbol net symb =
     (case hgnc_api net (''fetch/symbol/'' @ symb) of
        Inl e \<Rightarrow> Inr (JObj [])
      | Inr data \<Rightarrow> first_doc data)"

text \<open>The caller passes the HGNC id as an \<open>int\<close>, or \<open>""\<close> when it has none.\<close>

datatype id_arg = IdStr string | IdInt int

function str_nat :: "nat \<Rightarrow> string" where
  "str_nat n =
     (if n < 10 then [char_of (48 + n)] else str_nat (n div 10) @ [char_of (48 + n mod 10)])"
  by pat_completeness auto
termination
  by (relation "measure id") auto

definition str_int :: "int \<Rightarrow> string" where
  "str_int i = (if i < 0 then CHR ''-'' # str_nat (nat (- i)) else str_nat (nat i))"

definition fetch_hgnc_by_id :: "network \<Rightarrow> id_arg \<Rightarrow> py_error + json" where
  "fetch_hgnc_by_id net hgnc =
     (if hgnc = IdStr [] \<or> hgnc = IdInt 0 then Inr (JObj [])
      else
        (let s = (case hgnc of IdStr x \<Rightarrow> x | IdInt i \<Rightarrow> str_int i);
             ident = (if startswith s ''HGNC:'' then s else ''HGNC:'' @ s)
         in case hgnc_api net (''fetch/hgnc_id/'' @ ident) of
              Inl e \<Rightarrow> Inr (JObj [])
            | Inr data \<Rightarrow> first_doc data))"

text \<open>\<open>s.split(",")\<close>.\<close>

fun split_on :: "char \<Rightarrow> string \<Rightarrow> string list" where
  "split_on c [] = [[]]"
| "split_on c (x # xs) =
     (if x = c then [] # split_on c xs
      else (x # hd (split_on c xs)) # tl (split_on c xs))"

definition fetch_ncbi_aliases :: "network \<Rightarrow> string \<Rightarrow> py_error + string list" where
  "fetch_ncbi_aliases net entrez_id =
     (let url = ''https://eutils.ncbi.nlm.nih.gov/entrez/eutils/esummary.fcgi''
                @ ''?db=gene&id='' @ entrez_id @ ''&retmode=json''
      in case net (url, []) of
           Raises \<Rightarrow> Inr []
         | Responds resp \<Rightarrow>
             (case resp_json resp of
                None \<Rightarrow> Inr []
              | Some data \<Rightarrow>
                  ebind (py_get data ''result'' (JObj [])) (\<lambda>res.
                  ebind (py_get res entrez_id (JObj [])) (\<lambda>result.
                  ebind (py_get result ''otheraliases'' (JStr [])) (\<lambda>aliases_str.
                    if \<not> truthy aliases_str then Inr []
                    else
                      (case aliases_str of
                         JStr s \<Rightarrow> Inr (filter (\<lambda>a. a \<noteq> []) (map strip (split_on CHR '','' s)))
                       | _ \<Rightarrow> Inl AttributeError))))))"

definition fetch_coordinates_by_ensembl ::
  "(json \<Rightarrow> string) \<Rightarrow> network \<Rightarrow> string \<Rightarrow> string \<Rightarrow> py_error + string"
where
  "fetch_coordinates_by_ensembl fmt net ensembl_id assembly =
     (let base_url =
            (if lower assembly = ''hg19'' \<or> lower assembly = ''grch37''
             then ''https://grch37.rest.ensembl.org'' else ''https://rest.ensembl.org'');
          url = base_url @ ''/lookup/id/'' @ ensembl_id @ ''?content-type=application/json''
      in case net (url, []) of
           Raises \<Rightarrow> Inr []
         | Responds resp \<Rightarrow>
             if status_code resp \<noteq> 200 then Inr []
             else
               (case resp_json resp of
                  None \<Rightarrow> Inr []
                | Some data \<Rightarrow>
                    if \<not> truthy data then Inr []
                    else
                      ebind (py_get data ''seq_region_name'' JNull) (\<lambda>seq_region.
                      ebind (py_get data ''start'' JNull) (\<lambda>start.
                      ebind (py_get data ''end'' JNull) (\<lambda>stop.
                        if truthy seq_region \<and> truthy start \<and> truthy stop
                        then Inr (''chr'' @ fmt seq_region @ '':'' @ fmt start @ ''-'' @ fmt stop)
                        else Inr [])))))"

section \<open>Retrieving the article\<close>













section \<open>Writing the result\<close>

text \<open>
  The file that \<open>write_csv\<close> produces is the list of the rows handed to
  \<open>csv.writer\<close>, one list of fields per \<open>writerow\<close>. \<open>open\<close> succeeds on the
  paths that can be written, and raises \<open>OSError\<close> on the others.
\<close>

type_synonym csv_rows = "string list list"

definition headers :: "string list" where
  "headers =
     [''HGNC ID'', ''Gene Symbol'', ''HGNC Gene Name'',
      ''Gene Aliases'', ''hg38 Coordinates'', ''hg19 Coordinates'', ''Disease'']"

definition writerow :: "csv_rows \<Rightarrow> string list \<Rightarrow> csv_rows" where
  "writerow f row = f @ [row]"

definition write_csv ::
  "(string \<Rightarrow> bool) \<Rightarrow> (string \<rightharpoonup> csv_rows) \<Rightarrow> GeneInfo list \<Rightarrow> string
     \<Rightarrow> py_error + (string \<rightharpoonup> csv_rows)"
where
  "write_csv writable files rows path =
     (if \<not> writable path then Inl OSError
      else
        (let f = writerow [] headers;
             f = foldl (\<lambda>f gene. writerow f
                    [GeneInfo.hgnc_id gene, gene_symbol gene, gene_name gene, gene_aliases gene,
                     coord_hg38 gene, coord_hg19 gene, disease gene]) f rows
         in Inr (files(path \<mapsto> f))))"

section \<open>Regular expressions\<close>

text \<open>
  The patterns of \<open>gene_extractor.py\<close> are matched by backtracking, as Python's
  \<open>re\<close> does: a repetition is greedy and gives characters back one at a time, an
  alternation tries its branches from left to right, and the first way to match the rest
  of the pattern wins. A repetition is over a class of characters, which is all that the
  two patterns use. The matcher takes the rest of the pattern as a continuation; the
  captures are a list of groups with their spans, the latest first.
\<close>

datatype rx =
    Eps
  | Chr "char \<Rightarrow> bool"
  | Rep nat "char \<Rightarrow> bool"
  | Seq rx rx
  | Alt rx rx
  | Opt rx
  | Grp nat rx
  | Bnd

type_synonym caps = "(nat \<times> nat \<times> nat) list"

text \<open>\<open>\w\<close>, and \<open>\b\<close> at position \<open>i\<close>: exactly one of the two neighbours is a
  word character.\<close>

definition is_word_char :: "char \<Rightarrow> bool" where
  "is_word_char c = (is_upper_char c \<or> is_lower_char c \<or> is_digit_char c \<or> c = CHR ''_'')"

definition word_boundary :: "string \<Rightarrow> nat \<Rightarrow> bool" where
  "word_boundary s i =
     ((0 < i \<and> i \<le> length s \<and> is_word_char (s ! (i - 1))) \<noteq> (i < length s \<and> is_word_char (s ! i)))"

fun first_some :: "('a \<Rightarrow> 'r option) \<Rightarrow> 'a list \<Rightarrow> 'r option" where
  "first_some f [] = None"
| "first_some f (x # xs) = (case f x of Some r \<Rightarrow> Some r | None \<Rightarrow> first_some f xs)"

primrec rx_match ::
  "rx \<Rightarrow> string \<Rightarrow> nat \<Rightarrow> caps \<Rightarrow> (nat \<Rightarrow> caps \<Rightarrow> 'r option) \<Rightarrow> 'r option"
where
  "rx_match Eps s i c k = k i c"
| "rx_match (Chr p) s i c k = (if i < length s \<and> p (s ! i) then k (Suc i) c else None)"
| "rx_match (Rep n p) s i c k =
     first_some (\<lambda>j. k (i + j) c) (rev [n..<Suc (length (takeWhile p (drop i s)))])"
| "rx_match (Seq a b) s i c k = rx_match a s i c (\<lambda>j c'. rx_match b s j c' k)"
| "rx_match (Alt a b) s i c k =
     (case rx_match a s i c k of Some r \<Rightarrow> Some r | None \<Rightarrow> rx_match b s i c k)"
| "rx_match (Opt a) s i c k =
     (case rx_match a s i c k of Some r \<Rightarrow> Some r | None \<Rightarrow> k i c)"
| "rx_match (Grp g a) s i c k = rx_match a s i c (\<lambda>j c'. k j ((g, i, j) # c'))"
| "rx_match Bnd s i c k = (if word_boundary s i then k i c else None)"

text \<open>
  The same matcher with the rest of the pattern as a stack of pending items instead of a
  continuation; \<open>Close g i\<close> ends the group \<open>g\<close> that began at \<open>i\<close>. It is
  proved equal to \<open>rx_match\<close> below and serves to evaluate a match on a given text.
\<close>

datatype rx_item = R rx | Close nat nat

fun weight_item :: "rx_item \<Rightarrow> nat" where
  "weight_item (R r) = 2 * size r + 1"
| "weight_item (Close g i) = 1"

definition weight :: "rx_item list \<Rightarrow> nat" where
  "weight stk = sum_list (map weight_item stk)"

function run :: "rx_item list \<Rightarrow> string \<Rightarrow> nat \<Rightarrow> caps \<Rightarrow> (nat \<times> caps) option"
  and try_rep ::
    "rx_item list \<Rightarrow> string \<Rightarrow> nat \<Rightarrow> caps \<Rightarrow> nat \<Rightarrow> nat \<Rightarrow> (nat \<times> caps) option"
where
  "run [] s i c = Some (i, c)"
| "run (Close g st # k) s i c = run k s i ((g, st, i) # c)"
| "run (R Eps # k) s i c = run k s i c"
| "run (R (Chr p) # k) s i c = (if i < length s \<and> p (s ! i) then run k s (Suc i) c else None)"
| "run (R (Rep n p) # k) s i c = try_rep k s i c n (length (takeWhile p (drop i s)))"
| "run (R (Seq a b) # k) s i c = run (R a # R b # k) s i c"
| "run (R (Alt a b) # k) s i c =
     (case run (R a # k) s i c of Some r \<Rightarrow> Some r | None \<Rightarrow> run (R b # k) s i c)"
| "run (R (Opt a) # k) s i c =
     (case run (R a # k) s i c of Some r \<Rightarrow> Some r | None \<Rightarrow> run k s i c)"
| "run (R (Grp g a) # k) s i c = run (R a # Close g i # k) s i c"
| "run (R Bnd # k) s i c = (if word_boundary s i then run k s i c else None)"
| "try_rep k s i c n j =
     (if j < n then None
      else
        (case run k s (i + j) c of
           Some r \<Rightarrow> Some r
         | None \<Rightarrow> (if j = 0 then None else try_rep k s i c n (j - 1))))"
  by pat_completeness auto
termination
  by (relation "inv_image (less_than <*lex*> less_than)
        (\<lambda>x. case x of
               Inl (stk, s, i, c) \<Rightarrow> (weight stk, 0)
             | Inr (k, s, i, c, n, j) \<Rightarrow> (weight k, Suc j))")
     (auto simp: weight_def)

declare try_rep.simps [simp del]

text \<open>\<open>pattern.finditer(text)\<close>: the matches from left to right, each one searched
  from the end of the one before (one character further after an empty match).\<close>

record rx_found =
  m_start :: nat
  m_end :: nat
  m_caps :: caps

function finditer_from :: "rx \<Rightarrow> string \<Rightarrow> nat \<Rightarrow> rx_found list" where
  "finditer_from r s pos =
     (if length s < pos then []
      else
        (case rx_match r s pos [] (\<lambda>j c. Some (j, c)) of
           None \<Rightarrow> finditer_from r s (Suc pos)
         | Some (j, c) \<Rightarrow>
             \<lparr>m_start = pos, m_end = j, m_caps = c\<rparr>
               # finditer_from r s (if pos < j then j else Suc pos)))"
  by pat_completeness auto
termination
  by (relation "measure (\<lambda>(r, s, pos). Suc (length s) - pos)") auto

declare finditer_from.simps [simp del]

definition finditer :: "rx \<Rightarrow> string \<Rightarrow> rx_found list" where
  "finditer r s = finditer_from r s 0"

text \<open>\<open>match.start(g)\<close> with \<open>match.end(g)\<close>, and \<open>match.group(g)\<close>; \<open>None\<close> for
  a group that took no part in the match.\<close>

definition span_of :: "rx_found \<Rightarrow> nat \<Rightarrow> (nat \<times> nat) option" where
  "span_of m g = map_of (m_caps m) g"

definition slice :: "string \<Rightarrow> nat \<Rightarrow> nat \<Rightarrow> string" where
  "slice s a b = take (b - a) (drop a s)"

definition group_of :: "string \<Rightarrow> rx_found \<Rightarrow> nat \<Rightarrow> string option" where
  "group_of s m g = map_option (\<lambda>(a, b). slice s a b) (span_of m g)"

text \<open>Building patterns: a sequence, an alternation, a literal, a literal under
  \<open>re.IGNORECASE\<close>.\<close>

fun seqs :: "rx list \<Rightarrow> rx" where
  "seqs [] = Eps"
| "seqs [r] = r"
| "seqs (r # rs) = Seq r (seqs rs)"

fun alts :: "rx list \<Rightarrow> rx" where
  "alts [] = Eps"
| "alts [r] = r"
| "alts (r # rs) = Alt r (alts rs)"

definition lit :: "string \<Rightarrow> rx" where
  "lit w = seqs (map (\<lambda>x. Chr (\<lambda>c. c = x)) w)"

definition lit_i :: "string \<Rightarrow> rx" where
  "lit_i w = seqs (map (\<lambda>x. Chr (\<lambda>c. lower_char c = lower_char x)) w)"

section \<open>Gene mentions\<close>

text \<open>The class \<open>[A-Z0-9-]\<close>, as it is and under \<open>re.IGNORECASE\<close>.\<close>

definition symbol_char :: "char \<Rightarrow> bool" where
  "symbol_char c = (is_upper_char c \<or> is_digit_char c \<or> c = CHR ''-'')"

definition symbol_char_i :: "char \<Rightarrow> bool" where
  "symbol_char_i c = (is_upper_char c \<or> is_lower_char c \<or> is_digit_char c \<or> c = CHR ''-'')"

text \<open>\<open>\b([A-Z0-9-]+)\s*\([^)]*HGNC:(\d+)\)\<close>\<close>

definition explicit_pattern :: rx where
  "explicit_pattern =
     seqs [Bnd, Grp 1 (Rep 1 symbol_char), Rep 0 is_space, Chr (\<lambda>c. c = CHR ''(''),
           Rep 0 (\<lambda>c. c \<noteq> CHR '')''), lit ''HGNC:'', Grp 2 (Rep 1 is_digit_char),
           Chr (\<lambda>c. c = CHR '')'')]"

text \<open>\<open>(?:(?:variant|variants|mutation|mutations|VUS|VUSs)\s+in\s+(?:the\s+|a\s+)?)([A-Z0-9-]+)\b\<close>
  with \<open>re.IGNORECASE\<close>\<close>

definition context_pattern :: rx where
  "context_pattern =
     seqs [alts [lit_i ''variant'', lit_i ''variants'', lit_i ''mutation'', lit_i ''mutations'',
                 lit_i ''VUS'', lit_i ''VUSs''],
           Rep 1 is_space, lit_i ''in'', Rep 1 is_space,
           Opt (Alt (Seq (lit_i ''the'') (Rep 1 is_space)) (Seq (lit_i ''a'') (Rep 1 is_space))),
           Grp 1 (Rep 1 symbol_char_i), Bnd]"

text \<open>\<open>int(s)\<close> on a string of decimal digits; a \<open>ValueError\<close> otherwise.\<close>

definition py_int :: "string \<Rightarrow> py_error + nat" where
  "py_int s =
     (if isdigit s then Inr (foldl (\<lambda>n c. 10 * n + (of_char c - 48)) 0 s)
      else Inl (ValueError (Message ''invalid literal for int()'')))"

text \<open>The dict \<open>genes\<close>, in the order of insertion: the update of the entry of a key.\<close>

fun update_gene :: "string \<Rightarrow> (gene \<Rightarrow> gene) \<Rightarrow> gene list \<Rightarrow> gene list" where
  "update_gene symb f [] = []"
| "update_gene symb f (g # gs) =
     (if symbol g = symb then f g # gs else g # update_gene symb f gs)"

text \<open>The body of the loop over the matches of the explicit pattern.\<close>

definition add_explicit :: "string \<Rightarrow> gene list \<Rightarrow> rx_found \<Rightarrow> py_error + gene list" where
  "add_explicit text genes m =
     (case (group_of text m 1, group_of text m 2, span_of m 1) of
        (Some g1, Some g2, Some (sym_start, sym_end)) \<Rightarrow>
          ebind (py_int g2) (\<lambda>hgnc.
            let symb = upper g1;
                genes1 =
                  (if symb \<notin> set (map symbol genes)
                   then genes @ [\<lparr>symbol = symb, hgnc_id = Some hgnc, mentions = [],
                                  diseases = None\<rparr>]
                   else update_gene symb
                          (\<lambda>g. if gene.hgnc_id g = None then g\<lparr>hgnc_id := Some hgnc\<rparr> else g) genes)
            in Inr (update_gene symb
                      (\<lambda>g. g\<lparr>mentions := mentions g @ [(int sym_start, int sym_end)]\<rparr>) genes1))
      | _ \<Rightarrow> Inl AttributeError)"

text \<open>The body of the loop over the matches of the context pattern.\<close>

definition add_context :: "string \<Rightarrow> gene list \<Rightarrow> rx_found \<Rightarrow> py_error + gene list" where
  "add_context text genes m =
     (case (group_of text m 1, span_of m 1) of
        (Some g1, Some (sym_start, sym_end)) \<Rightarrow>
          (let symb = upper g1;
               genes1 =
                 (if symb \<notin> set (map symbol genes)
                  then genes @ [\<lparr>symbol = symb, hgnc_id = None, mentions = [], diseases = None\<rparr>]
                  else genes)
           in Inr (update_gene symb
                     (\<lambda>g. g\<lparr>mentions := mentions g @ [(int sym_start, int sym_end)]\<rparr>) genes1))
      | _ \<Rightarrow> Inl AttributeError)"

fun run_loop :: "('s \<Rightarrow> 'a \<Rightarrow> py_error + 's) \<Rightarrow> 's \<Rightarrow> 'a list \<Rightarrow> py_error + 's" where
  "run_loop f st [] = Inr st"
| "run_loop f st (x # xs) = (case f st x of Inl e \<Rightarrow> Inl e | Inr st' \<Rightarrow> run_loop f st' xs)"

definition extract_genes :: "string \<Rightarrow> py_error + gene list" where
  "extract_genes text =
     ebind (run_loop (add_explicit text) [] (finditer explicit_pattern text)) (\<lambda>genes.
       run_loop (add_context text) genes (finditer context_pattern text))"

section \<open>Vocabulary of the properties\<close>

text \<open>An entity is accepted when it passes the three guards at the head of the loop body.\<close>

definition accepted :: "network \<Rightarrow> entity \<Rightarrow> bool" where
  "accepted net ent =
     (ent_label ent = ''DISEASE'' \<and> disease_name_of ent \<noteq> [] \<and>
      \<not> is_generic (disease_name_of ent) \<and> is_valid_disease_name net (disease_name_of ent))"

text \<open>
  What linking a disease to the gene at position \<open>k\<close> means: the name is in the set of
  diseases of that gene afterwards, a set that holds what it held before (nothing, when
  the gene had no set yet), and no other field and no other gene changes.
\<close>

definition link :: "gene list \<Rightarrow> string \<Rightarrow> nat \<Rightarrow> gene list" where
  "link genes disease_name k =
     genes[k := (genes ! k)\<lparr>diseases :=
       Some (insert disease_name (case diseases (genes ! k) of None \<Rightarrow> {} | Some ds \<Rightarrow> ds))\<rparr>]"

text \<open>The distinct gene symbols with a mention inside a sentence.\<close>

definition symbols_mentioned :: "gene list \<Rightarrow> span \<Rightarrow> string set" where
  "symbols_mentioned genes s =
     {symbol g | g. g \<in> set genes \<and>
        (\<exists>m \<in> set (mentions g). start_char s \<le> fst m \<and> snd m \<le> end_char s)}"




section \<open>Sample inputs\<close>

text \<open>A network on which MedGen knows every term, and one that is down.\<close>

definition net_ok :: network where
  "net_ok rq = Responds \<lparr>status_code = 200, resp_text = ''<Id>7</Id>'', resp_json = None\<rparr>"

definition net_down :: network where
  "net_down rq = Raises"

text \<open>A network on which the NCBI searches answer with an error status and OLS finds
  three terms.\<close>

definition net_ols :: network where
  "net_ols rq =
     (if fst rq = ''https://www.ebi.ac.uk/ols/api/search''
      then Responds \<lparr>status_code = 200, resp_text = [],
             resp_json = Some (JObj [(''response'', JObj [(''numFound'', JNum 3)])])\<rparr>
      else Responds \<lparr>status_code = 500, resp_text = [], resp_json = None\<rparr>)"

text \<open>One sentence of 61 characters: gene \<open>AAA\<close> is mentioned at its start and again
  just before the disease, gene \<open>BBB\<close> in between.\<close>

definition gene_a :: gene where
  "gene_a = \<lparr>symbol = ''AAA'', hgnc_id = None, mentions = [(0, 3), (50, 53)], diseases = None\<rparr>"

definition gene_b :: gene where
  "gene_b = \<lparr>symbol = ''BBB'', hgnc_id = None, mentions = [(40, 43)], diseases = None\<rparr>"

definition sentence_1 :: span where
  "sentence_1 = \<lparr>start_char = 0, end_char = 61\<rparr>"

definition asthma_1 :: entity where
  "asthma_1 = \<lparr>start_char = 54, end_char = 60, ent_label = ''DISEASE'', ent_text = ''asthma'',
     sent = sentence_1\<rparr>"

text \<open>An entity of the same sentence whose text is a generic term.\<close>

definition generic_1 :: entity where
  "generic_1 = \<lparr>start_char = 44, end_char = 63, ent_label = ''DISEASE'',
     ent_text = ''autosomal recessive.'', sent = sentence_1\<rparr>"

text \<open>Three sentences; the disease lies in the middle one, which mentions no gene.\<close>

definition sentence_2 :: span where
  "sentence_2 = \<lparr>start_char = 62, end_char = 100\<rparr>"

definition sentence_3 :: span where
  "sentence_3 = \<lparr>start_char = 101, end_char = 150\<rparr>"

definition asthma_2 :: entity where
  "asthma_2 = \<lparr>start_char = 70, end_char = 76, ent_label = ''DISEASE'', ent_text = ''asthma'',
     sent = sentence_2\<rparr>"


section \<open>Vocabulary of the generic-term properties\<close>

text \<open>\<open>" ".join(ws)\<close>, a word made of lower-case letters, and the generic qualifier
  words: the members of \<open>GENERIC_PARTS\<close> without a hyphen (a hyphen separates words).\<close>

fun join_words :: "string list \<Rightarrow> string" where
  "join_words [] = []"
| "join_words [w] = w"
| "join_words (w # v # ws) = w @ '' '' @ join_words (v # ws)"

definition plain_word :: "string \<Rightarrow> bool" where
  "plain_word w = (w \<noteq> [] \<and> list_all is_lower_char w)"

definition qualifier_words :: "string list" where
  "qualifier_words = filter (\<lambda>w. CHR ''-'' \<notin> set w) GENERIC_PARTS"

text \<open>A network that answers every request with status 200 and the JSON array \<open>[1]\<close>.\<close>

definition net_array :: network where
  "net_array rq = Responds \<lparr>status_code = 200, resp_text = ''[1]'', resp_json = Some (JArr [JNum 1])\<rparr>"

text \<open>Two records for the writer and a file system with writable paths ending in
  \<open>.csv\<close>.\<close>

definition info_1 :: GeneInfo where
  "info_1 = \<lparr>GeneInfo.hgnc_id = ''HGNC:11998'', gene_symbol = ''TP53'',
     gene_name = ''tumor protein p53'', gene_aliases = ''LFS1; p53'',
     coord_hg38 = ''chr17:7661779-7687546'', coord_hg19 = ''chr17:7565097-7590856'',
     disease = ''Li-Fraumeni syndrome''\<rparr>"

definition info_2 :: GeneInfo where
  "info_2 = \<lparr>GeneInfo.hgnc_id = ''HGNC:1100'', gene_symbol = ''BRCA1'',
     gene_name = ''BRCA1 DNA repair associated'', gene_aliases = [],
     coord_hg38 = [], coord_hg19 = [], disease = ''breast cancer; ovarian cancer''\<rparr>"

definition csv_paths :: "string \<Rightarrow> bool" where
  "csv_paths path = endswith path ''.csv''"

text \<open>A rendering of JSON values that keeps strings and drops the rest, and a parser
  that rejects every document.\<close>

definition fmt_plain :: "json \<Rightarrow> string" where
  "fmt_plain v = (case v of JStr s \<Rightarrow> s | _ \<Rightarrow> [])"


section \<open>Vocabulary of the extraction properties\<close>

text \<open>A pattern without a capturing group.\<close>

primrec no_grp :: "rx \<Rightarrow> bool" where
  "no_grp Eps = True"
| "no_grp (Chr p) = True"
| "no_grp (Rep n p) = True"
| "no_grp (Seq a b) = (no_grp a \<and> no_grp b)"
| "no_grp (Alt a b) = (no_grp a \<and> no_grp b)"
| "no_grp (Opt a) = no_grp a"
| "no_grp (Grp g a) = False"
| "no_grp Bnd = True"

text \<open>A mention lies in the text and delimits a non-empty piece of it whose upper-case
  form is the symbol of the gene.\<close>

definition mention_of :: "string \<Rightarrow> gene \<Rightarrow> int \<times> int \<Rightarrow> bool" where
  "mention_of text g m =
     (0 \<le> fst m \<and> fst m < snd m \<and> snd m \<le> int (length text) \<and>
      upper (slice text (nat (fst m)) (nat (snd m))) = symbol g)"

text \<open>A text with an explicit mention and a mention in context of the same gene.\<close>

definition sample_text :: string where
  "sample_text = ''TP53 (HGNC:11998); VUS in tp53''"

section \<open>The linker only adds disease names\<close>

lemma map_update_same: "f y = f (xs ! k) \<Longrightarrow> map f (xs[k := y]) = map f xs"
proof (rule nth_equalityI)
  show "length (map f (xs[k := y])) = length (map f xs)" by simp
next
  fix i assume "i < length (map f (xs[k := y]))"
  then have i: "i < length xs" by simp
  assume eq: "f y = f (xs ! k)"
  show "map f (xs[k := y]) ! i = map f xs ! i"
  proof (cases "i = k")
    case True
    with i eq show ?thesis by simp
  next
    case False
    with i show ?thesis by simp
  qed
qed

lemma add_disease_fields [simp]:
  "symbol (add_disease d g) = symbol g"
  "hgnc_id (add_disease d g) = hgnc_id g"
  "mentions (add_disease d g) = mentions g"
  "diseases_of (add_disease d g) = insert d (diseases_of g)"
  by (simp_all add: add_disease_def diseases_of_def)

lemma associate_one_cases:
  "associate_one net ss genes ent = genes \<or>
   (\<exists>k. associate_one net ss genes ent = genes[k := add_disease (disease_name_of ent) (genes ! k)])"
  by (auto simp: associate_one_def Let_def split: option.split)

lemma associate_one_length [simp]: "length (associate_one net ss genes ent) = length genes"
  using associate_one_cases [of net ss genes ent] by auto

lemma associate_one_symbol [simp]: "map symbol (associate_one net ss genes ent) = map symbol genes"
  using associate_one_cases [of net ss genes ent] by (auto simp: map_update_same)

lemma associate_one_hgnc_id [simp]: "map hgnc_id (associate_one net ss genes ent) = map hgnc_id genes"
  using associate_one_cases [of net ss genes ent] by (auto simp: map_update_same)

lemma associate_one_mentions [simp]: "map mentions (associate_one net ss genes ent) = map mentions genes"
  using associate_one_cases [of net ss genes ent] by (auto simp: map_update_same)

lemma update_diseases_of:
  "diseases_of (genes[k := add_disease d (genes ! k)] ! i) =
     (if i = k \<and> k < length genes then insert d (diseases_of (genes ! i)) else diseases_of (genes ! i))"
  by (cases "k < length genes") (simp_all add: nth_list_update list_update_beyond)

lemma associate_one_diseases:
  shows "diseases_of (genes ! i) \<subseteq> diseases_of (associate_one net ss genes ent ! i)"
    and "diseases_of (associate_one net ss genes ent ! i) \<subseteq> insert (disease_name_of ent) (diseases_of (genes ! i))"
  using associate_one_cases [of net ss genes ent]
  by (auto simp: update_diseases_of split: if_splits)

lemma foldl_associate_frame:
  "length (foldl (associate_one net ss) genes es) = length genes \<and>
   map symbol (foldl (associate_one net ss) genes es) = map symbol genes \<and>
   map hgnc_id (foldl (associate_one net ss) genes es) = map hgnc_id genes \<and>
   map mentions (foldl (associate_one net ss) genes es) = map mentions genes \<and>
   (\<forall>i<length genes.
      diseases_of (genes ! i) \<subseteq> diseases_of (foldl (associate_one net ss) genes es ! i) \<and>
      diseases_of (foldl (associate_one net ss) genes es ! i)
        \<subseteq> diseases_of (genes ! i) \<union> disease_name_of ` set es)"
proof (induction es arbitrary: genes)
  case Nil
  show ?case by simp
next
  case (Cons e es)
  let ?g1 = "associate_one net ss genes e"
  note ih = Cons.IH [of ?g1]
  have d: "\<forall>i<length genes.
      diseases_of (genes ! i) \<subseteq> diseases_of (foldl (associate_one net ss) ?g1 es ! i) \<and>
      diseases_of (foldl (associate_one net ss) ?g1 es ! i)
        \<subseteq> diseases_of (genes ! i) \<union> disease_name_of ` set (e # es)"
  proof (intro allI impI)
    fix i assume i: "i < length genes"
    from ih i have a: "diseases_of (?g1 ! i) \<subseteq> diseases_of (foldl (associate_one net ss) ?g1 es ! i)"
      and b: "diseases_of (foldl (associate_one net ss) ?g1 es ! i) \<subseteq> diseases_of (?g1 ! i) \<union> disease_name_of ` set es"
      by simp_all
    from associate_one_diseases [where genes=genes and i=i and net=net and ss=ss and ent=e] a b
    show "diseases_of (genes ! i) \<subseteq> diseases_of (foldl (associate_one net ss) ?g1 es ! i) \<and>
      diseases_of (foldl (associate_one net ss) ?g1 es ! i)
        \<subseteq> diseases_of (genes ! i) \<union> disease_name_of ` set (e # es)"
      by auto
  qed
  from ih d show ?case by simp
qed


text \<open>
  Claim C10. \<open>associate_diseases\<close> changes its list of genes only by adding disease names
  to the per-gene sets: the list keeps its length and, position by position, the symbol,
  the HGNC id and the mentions of every gene; no disease name leaves a set, and a name
  that enters one is the disease name of an entity of the document.
\<close>

theorem associate_diseases_frame:
  "length (associate_diseases net genes d) = length genes \<and>
   map symbol (associate_diseases net genes d) = map symbol genes \<and>
   map hgnc_id (associate_diseases net genes d) = map hgnc_id genes \<and>
   map mentions (associate_diseases net genes d) = map mentions genes \<and>
   (\<forall>i<length genes.
      diseases_of (genes ! i) \<subseteq> diseases_of (associate_diseases net genes d ! i) \<and>
      diseases_of (associate_diseases net genes d ! i)
        \<subseteq> diseases_of (genes ! i) \<union> disease_name_of ` set (ents d))"
  unfolding associate_diseases_def by (rule foldl_associate_frame)

theorem associate_diseases_frame_witness:
  "(1::nat) < length [gene_a, gene_b] \<and>
   map symbol (associate_diseases net_ok [gene_a, gene_b] \<lparr>sents = [sentence_1], ents = [asthma_1]\<rparr>)
     = map symbol [gene_a, gene_b] \<and>
   diseases_of ([gene_a, gene_b] ! 1)
     \<subseteq> diseases_of
        (associate_diseases net_ok [gene_a, gene_b] \<lparr>sents = [sentence_1], ents = [asthma_1]\<rparr> ! 1) \<and>
   associate_diseases net_ok [gene_a, gene_b] \<lparr>sents = [sentence_1], ents = [asthma_1]\<rparr>
     = [gene_a, gene_b\<lparr>diseases := Some {''asthma''}\<rparr>]"
proof -
  have h: "(1::nat) < length [gene_a, gene_b]" by simp
  have v: "associate_diseases net_ok [gene_a, gene_b] \<lparr>sents = [sentence_1], ents = [asthma_1]\<rparr>
     = [gene_a, gene_b\<lparr>diseases := Some {''asthma''}\<rparr>]"
    by code_simp
  from associate_diseases_frame
         [of net_ok "[gene_a, gene_b]" "\<lparr>sents = [sentence_1], ents = [asthma_1]\<rparr>"] h v
  show ?thesis by blast
qed

section \<open>Linking through an adjacent sentence\<close>


lemma find_upt_None: "find P [0..<n] = None \<longleftrightarrow> (\<forall>j<n. \<not> P j)"
  by (auto simp: find_None_iff)

lemma set_symbols_in: "set (symbols_in genes s) = symbols_mentioned genes s"
  by (auto simp: symbols_in_def symbols_mentioned_def list_ex_iff mention_within_def)

lemma length_symbols_in: "length (symbols_in genes s) = card (symbols_mentioned genes s)"
  unfolding set_symbols_in [symmetric] symbols_in_def by (simp add: length_remdups_card_conv)

lemma symbols_mentioned_subset: "symbols_mentioned genes s \<subseteq> symbol ` set genes"
  by (auto simp: symbols_mentioned_def)


lemma first_with_symbol_ex:
  assumes "sy \<in> symbol ` set genes"
  shows "\<exists>k. first_with_symbol genes sy = Some k"
proof -
  from assms obtain j where "j < length genes" "symbol (genes ! j) = sy"
    by (auto simp: in_set_conv_nth)
  then have "first_with_symbol genes sy \<noteq> None"
    by (auto simp: first_with_symbol_def find_upt_None)
  then show ?thesis by auto
qed

lemma unique_gene_simps:
  "symbols_in genes s = [] \<Longrightarrow> unique_gene genes s = None"
  "symbols_in genes s = [a] \<Longrightarrow> unique_gene genes s = first_with_symbol genes a"
  "symbols_in genes s = a # b # rest \<Longrightarrow> unique_gene genes s = None"
  by (simp_all add: unique_gene_def)

lemma unique_gene_None:
  "unique_gene genes s = None \<longleftrightarrow> card (symbols_mentioned genes s) \<noteq> 1"
proof (cases "symbols_in genes s")
  case Nil
  from unique_gene_simps(1) [OF Nil] Nil length_symbols_in [of genes s]
  show ?thesis by simp
next
  case (Cons a rest)
  show ?thesis
  proof (cases rest)
    case Nil
    with Cons have eq: "symbols_in genes s = [a]" by simp
    then have "a \<in> symbols_mentioned genes s" unfolding set_symbols_in [symmetric] by simp
    then have "a \<in> symbol ` set genes" using symbols_mentioned_subset by blast
    from first_with_symbol_ex [OF this] obtain k where "first_with_symbol genes a = Some k" ..
    with unique_gene_simps(2) [OF eq] have "unique_gene genes s \<noteq> None" by simp
    moreover from eq length_symbols_in [of genes s] have "card (symbols_mentioned genes s) = 1"
      by simp
    ultimately show ?thesis by simp
  next
    case (Cons b rest')
    with \<open>symbols_in genes s = a # rest\<close> have eq: "symbols_in genes s = a # b # rest'" by simp
    from eq length_symbols_in [of genes s] have "card (symbols_mentioned genes s) \<noteq> 1" by simp
    with unique_gene_simps(3) [OF eq] show ?thesis by simp
  qed
qed


lemma genes_in_sentence_Nil:
  "genes_in_sentence genes s e = [] \<longleftrightarrow>
     (\<forall>g\<in>set genes. \<forall>m\<in>set (mentions g). \<not> (s \<le> fst m \<and> snd m \<le> e))"
proof -
  have "genes_in_sentence genes s e = [] \<longleftrightarrow>
          (\<forall>i<length genes. \<forall>m\<in>set (mentions (genes ! i)). \<not> (s \<le> fst m \<and> snd m \<le> e))"
    by (auto simp: genes_in_sentence_def filter_empty_conv list_ex_iff mention_within_def)
  also have "\<dots> \<longleftrightarrow> (\<forall>g\<in>set genes. \<forall>m\<in>set (mentions g). \<not> (s \<le> fst m \<and> snd m \<le> e))"
    by (simp add: all_set_conv_all_nth)
  finally show ?thesis .
qed

lemma associate_one_accepted:
  "accepted net ent \<Longrightarrow>
   associate_one net ss genes ent =
     (case link_target ss genes ent of None \<Rightarrow> genes | Some k \<Rightarrow> link genes (disease_name_of ent) k)"
  by (simp add: associate_one_def accepted_def link_def add_disease_def diseases_of_def Let_def
        split: option.split)


lemma associate_one_not_accepted:
  "\<not> accepted net ent \<Longrightarrow> associate_one net ss genes ent = genes"
  by (auto simp: associate_one_def accepted_def Let_def)

lemma associate_one_no_target:
  "link_target ss genes ent = None \<Longrightarrow> associate_one net ss genes ent = genes"
  by (auto simp: associate_one_def Let_def)

lemma link_target_adjacent:
  "genes_in_sentence genes (start_char (sent ent)) (end_char (sent ent)) = [] \<Longrightarrow>
   link_target ss genes ent = adjacent_gene ss genes (start_char (sent ent))"
  by (simp add: link_target_def Let_def)

lemma adjacent_gene_unfold:
  assumes "sent_index_of ss st = Some i"
  shows "adjacent_gene ss genes st =
     (if (if 0 < i then unique_gene genes (ss ! (i - 1)) else None) = None \<and>
         int i < int (length ss) - 1
      then unique_gene genes (ss ! (i + 1))
      else (if 0 < i then unique_gene genes (ss ! (i - 1)) else None))"
  unfolding adjacent_gene_def Let_def assms option.case ..


lemma adjacent_no_prev:
  assumes "\<not> (0 < i \<and> card (symbols_mentioned genes (ss ! (i - 1))) = 1)"
  shows "(if 0 < i then unique_gene genes (ss ! (i - 1)) else None) = None"
proof (cases "0 < i")
  case True
  with assms have "card (symbols_mentioned genes (ss ! (i - 1))) \<noteq> 1" by blast
  then have "unique_gene genes (ss ! (i - 1)) = None" by (simp add: unique_gene_None)
  with True show ?thesis by (simp only: if_True)
next
  case False
  then show ?thesis by (simp only: if_False)
qed

lemma adjacent_next:
  assumes "sent_index_of ss st = Some i"
    and "\<not> (0 < i \<and> card (symbols_mentioned genes (ss ! (i - 1))) = 1)"
    and "i + 1 < length ss"
  shows "adjacent_gene ss genes st = unique_gene genes (ss ! (i + 1))"
proof -
  from assms(3) have c: "int i < int (length ss) - 1" by simp
  show ?thesis
    unfolding adjacent_gene_unfold [OF assms(1)] adjacent_no_prev [OF assms(2)]
    using c by (simp only: if_True simp_thms)
qed

lemma adjacent_none:
  assumes "sent_index_of ss st = Some i"
    and "\<not> (0 < i \<and> card (symbols_mentioned genes (ss ! (i - 1))) = 1)"
    and "\<not> i + 1 < length ss"
  shows "adjacent_gene ss genes st = None"
proof -
  from assms(3) have c: "\<not> int i < int (length ss) - 1" by simp
  show ?thesis
    unfolding adjacent_gene_unfold [OF assms(1)] adjacent_no_prev [OF assms(2)]
    using c by (simp only: if_False simp_thms)
qed


text \<open>
  Claim C3. A disease span with no gene mention inside its own sentence, whose preceding
  sentence and whose following sentence (where they exist) do not mention exactly one
  distinct gene symbol, records no association: the loop body returns the genes as they
  were, so no disease set gains the name. The position of the span's sentence is the one
  the code finds, the first sentence of the document with the same start offset; when
  there is none the span is dropped as well.
\<close>

theorem dropped_without_unique_neighbour:
  assumes "\<forall>g\<in>set genes. \<forall>m\<in>set (mentions g).
             \<not> (start_char (sent ent) \<le> fst m \<and> snd m \<le> end_char (sent ent))"
    and "\<forall>i. sent_index_of ss (start_char (sent ent)) = Some i \<longrightarrow>
           (0 < i \<longrightarrow> card (symbols_mentioned genes (ss ! (i - 1))) \<noteq> 1) \<and>
           (i + 1 < length ss \<longrightarrow> card (symbols_mentioned genes (ss ! (i + 1))) \<noteq> 1)"
  shows "associate_one net ss genes ent = genes"
proof -
  from assms(1) have "genes_in_sentence genes (start_char (sent ent)) (end_char (sent ent)) = []"
    by (simp add: genes_in_sentence_Nil)
  then have lt: "link_target ss genes ent = adjacent_gene ss genes (start_char (sent ent))"
    by (rule link_target_adjacent)
  have "adjacent_gene ss genes (start_char (sent ent)) = None"
  proof (cases "sent_index_of ss (start_char (sent ent))")
    case None
    then show ?thesis by (simp add: adjacent_gene_def)
  next
    case (Some i)
    with assms(2) have a: "\<not> (0 < i \<and> card (symbols_mentioned genes (ss ! (i - 1))) = 1)"
      and b: "i + 1 < length ss \<longrightarrow> card (symbols_mentioned genes (ss ! (i + 1))) \<noteq> 1"
      by auto
    show ?thesis
    proof (cases "i + 1 < length ss")
      case True
      with b have "unique_gene genes (ss ! (i + 1)) = None" by (simp add: unique_gene_None)
      with adjacent_next [OF Some a True] show ?thesis by simp
    next
      case False
      from adjacent_none [OF Some a False] show ?thesis .
    qed
  qed
  with lt show ?thesis by (simp add: associate_one_no_target)
qed


theorem dropped_without_unique_neighbour_witness:
  "genes_in_sentence [gene_a, gene_b] (start_char (sent asthma_2)) (end_char (sent asthma_2)) = [] \<and>
   sent_index_of [sentence_1, sentence_2, sentence_3] (start_char (sent asthma_2)) = Some 1 \<and>
   card (symbols_mentioned [gene_a, gene_b] sentence_1) = 2 \<and>
   card (symbols_mentioned [gene_a, gene_b] sentence_3) = 0 \<and>
   associate_one net_ok [sentence_1, sentence_2, sentence_3] [gene_a, gene_b] asthma_2
     = [gene_a, gene_b]"
proof -
  let ?ss = "[sentence_1, sentence_2, sentence_3]"
  let ?gs = "[gene_a, gene_b]"
  have h1: "\<forall>g\<in>set ?gs. \<forall>m\<in>set (mentions g).
      \<not> (start_char (sent asthma_2) \<le> fst m \<and> snd m \<le> end_char (sent asthma_2))"
    by code_simp
  have ix: "sent_index_of ?ss (start_char (sent asthma_2)) = Some 1"
    by code_simp
  have c1: "card (symbols_mentioned ?gs sentence_1) = 2"
    unfolding length_symbols_in [symmetric] by code_simp
  have c3: "card (symbols_mentioned ?gs sentence_3) = 0"
    unfolding length_symbols_in [symmetric] by code_simp
  have h2: "\<forall>i. sent_index_of ?ss (start_char (sent asthma_2)) = Some i \<longrightarrow>
           (0 < i \<longrightarrow> card (symbols_mentioned ?gs (?ss ! (i - 1))) \<noteq> 1) \<and>
           (i + 1 < length ?ss \<longrightarrow> card (symbols_mentioned ?gs (?ss ! (i + 1))) \<noteq> 1)"
    using c1 c3 by (simp add: ix)
  have g: "genes_in_sentence ?gs (start_char (sent asthma_2)) (end_char (sent asthma_2)) = []"
    using h1 by (simp only: genes_in_sentence_Nil)
  from dropped_without_unique_neighbour [OF h1 h2, of net_ok] g ix c1 c3
  show ?thesis by blast
qed



section \<open>Linking inside the sentence of the disease\<close>











section \<open>Which entities are considered for linking\<close>

lemma strip_where_Nil [simp]: "strip_where p [] = []"
  by (simp add: strip_where_def)

lemma strip_nonempty_imp: "strip s \<noteq> [] \<Longrightarrow> s \<noteq> []"
  by (auto simp: strip_def)

lemma is_valid_disease_name_iff:
  "is_valid_disease_name net d \<longleftrightarrow>
     strip d \<noteq> [] \<and>
     (medgen_confirms net (strip d) \<or> mesh_confirms net (strip d) \<or> ols_confirms net (strip d))"
  by (simp add: is_valid_disease_name_def Let_def)


text \<open>
  Claim C5. An entity is considered for gene linking only if its label is \<open>DISEASE\<close>, its
  stripped text is not empty and not generic, and the validity check succeeds; the check
  succeeds exactly when one of the three lookups (MedGen, MeSH, the Disease Ontology of
  OLS) confirms the term, a lookup that raises or fails confirming nothing. An entity
  that is not accepted is skipped: the genes stay as they were. On a blank term no lookup
  is made and the check fails.
\<close>

theorem disease_span_considered:
  "(accepted net ent \<longleftrightarrow>
      ent_label ent = ''DISEASE'' \<and> strip (disease_name_of ent) \<noteq> [] \<and>
      \<not> is_generic (disease_name_of ent) \<and>
      (medgen_confirms net (strip (disease_name_of ent)) \<or>
       mesh_confirms net (strip (disease_name_of ent)) \<or>
       ols_confirms net (strip (disease_name_of ent)))) \<and>
   (accepted net ent \<longrightarrow>
      associate_one net ss genes ent =
        (case link_target ss genes ent of
           None \<Rightarrow> genes
         | Some k \<Rightarrow> link genes (disease_name_of ent) k)) \<and>
   (\<not> accepted net ent \<longrightarrow> associate_one net ss genes ent = genes)"
proof (intro conjI impI)
  show "accepted net ent \<longleftrightarrow>
      ent_label ent = ''DISEASE'' \<and> strip (disease_name_of ent) \<noteq> [] \<and>
      \<not> is_generic (disease_name_of ent) \<and>
      (medgen_confirms net (strip (disease_name_of ent)) \<or>
       mesh_confirms net (strip (disease_name_of ent)) \<or>
       ols_confirms net (strip (disease_name_of ent)))"
    unfolding accepted_def is_valid_disease_name_iff
    using strip_nonempty_imp [of "disease_name_of ent"] by blast
next
  assume "accepted net ent"
  then show "associate_one net ss genes ent =
        (case link_target ss genes ent of
           None \<Rightarrow> genes
         | Some k \<Rightarrow> link genes (disease_name_of ent) k)"
    by (rule associate_one_accepted)
next
  assume "\<not> accepted net ent"
  then show "associate_one net ss genes ent = genes"
    by (rule associate_one_not_accepted)
qed

theorem disease_span_considered_witness:
  "accepted net_ok asthma_1 \<and>
   (ent_label asthma_1 = ''DISEASE'' \<and> strip (disease_name_of asthma_1) \<noteq> [] \<and>
      \<not> is_generic (disease_name_of asthma_1) \<and>
      (medgen_confirms net_ok (strip (disease_name_of asthma_1)) \<or>
       mesh_confirms net_ok (strip (disease_name_of asthma_1)) \<or>
       ols_confirms net_ok (strip (disease_name_of asthma_1)))) \<and>
   \<not> accepted net_down asthma_1 \<and>
   associate_one net_down [sentence_1] [gene_a, gene_b] asthma_1 = [gene_a, gene_b] \<and>
   accepted net_ols asthma_1 \<and> \<not> medgen_confirms net_ols ''asthma'' \<and>
   \<not> mesh_confirms net_ols ''asthma'' \<and> ols_confirms net_ols ''asthma''"
proof -
  have e: "accepted net_ols asthma_1 \<and> \<not> medgen_confirms net_ols ''asthma'' \<and>
   \<not> mesh_confirms net_ols ''asthma'' \<and> ols_confirms net_ols ''asthma''"
    by code_simp
  have a: "accepted net_ok asthma_1" by code_simp
  have b: "\<not> accepted net_down asthma_1" by code_simp
  from disease_span_considered [of net_ok asthma_1 "[sentence_1]" "[gene_a, gene_b]"] a
  have c: "ent_label asthma_1 = ''DISEASE'' \<and> strip (disease_name_of asthma_1) \<noteq> [] \<and>
      \<not> is_generic (disease_name_of asthma_1) \<and>
      (medgen_confirms net_ok (strip (disease_name_of asthma_1)) \<or>
       mesh_confirms net_ok (strip (disease_name_of asthma_1)) \<or>
       ols_confirms net_ok (strip (disease_name_of asthma_1)))"
    by blast
  from disease_span_considered [of net_down asthma_1 "[sentence_1]" "[gene_a, gene_b]"] b
  have d: "associate_one net_down [sentence_1] [gene_a, gene_b] asthma_1 = [gene_a, gene_b]"
    by blast
  from a b c d e show ?thesis by blast
qed

section \<open>Generic terms\<close>

lemma lower_not_space: "is_lower_char c \<Longrightarrow> \<not> is_space c"
  by (auto simp: is_lower_char_def is_space_def Let_def)

lemma lower_not_sep: "is_lower_char c \<Longrightarrow> \<not> is_sep c"
  by (auto simp: is_lower_char_def is_sep_def is_space_def Let_def)

lemma lower_not_upper: "is_lower_char c \<Longrightarrow> \<not> is_upper_char c"
  by (auto simp: is_lower_char_def is_upper_char_def Let_def)

lemma upper_not_lower: "is_upper_char c \<Longrightarrow> \<not> is_lower_char c"
  by (auto simp: is_lower_char_def is_upper_char_def Let_def)

lemma upper_not_space: "is_upper_char c \<Longrightarrow> \<not> is_space c"
  by (auto simp: is_upper_char_def is_space_def Let_def)

lemma lower_not_punct: "is_lower_char c \<Longrightarrow> c \<notin> set '' -;,''"
  by (auto simp: is_lower_char_def Let_def)

lemma upper_not_punct: "is_upper_char c \<Longrightarrow> c \<notin> set '' ,;:-''"
  by (auto simp: is_upper_char_def Let_def)

lemma space_is_sep: "is_sep CHR '' ''" "is_space CHR '' ''" "\<not> is_upper_char CHR '' ''" "\<not> is_lower_char CHR '' ''"
  by (simp_all add: is_sep_def is_space_def is_upper_char_def is_lower_char_def)

lemma qualifier_words_plain: "w \<in> set qualifier_words \<Longrightarrow> plain_word w"
proof -
  have "list_all plain_word qualifier_words" by code_simp
  then show "w \<in> set qualifier_words \<Longrightarrow> plain_word w" by (simp add: list_all_iff)
qed

lemma qualifier_words_generic: "w \<in> set qualifier_words \<Longrightarrow> w \<in> set GENERIC_PARTS"
  by (simp add: qualifier_words_def)


subsection \<open>Stripping\<close>

lemma dropWhile_hd_id: "s \<noteq> [] \<Longrightarrow> \<not> p (hd s) \<Longrightarrow> dropWhile p s = s"
  by (cases s) simp_all

lemma strip_where_id:
  assumes "s \<noteq> []" "\<not> p (hd s)" "\<not> p (last s)"
  shows "strip_where p s = s"
proof -
  from assms have a: "dropWhile p s = s" by (simp add: dropWhile_hd_id)
  from assms have "rev s \<noteq> []" "\<not> p (hd (rev s))" by (simp_all add: hd_rev)
  then have "dropWhile p (rev s) = rev s" by (rule dropWhile_hd_id)
  with a show ?thesis by (simp add: strip_where_def)
qed

lemma set_strip_where: "set (strip_where p s) \<subseteq> set s"
proof -
  have "set (dropWhile p (rev (dropWhile p s))) \<subseteq> set (rev (dropWhile p s))"
    by (auto dest: set_dropWhileD)
  also have "\<dots> \<subseteq> set s" by (auto dest: set_dropWhileD)
  finally show ?thesis by (simp add: strip_where_def)
qed

lemma dropWhile_keeps: "x \<in> set s \<Longrightarrow> \<not> p x \<Longrightarrow> x \<in> set (dropWhile p s)"
  by (induction s) auto

lemma strip_where_keeps: "x \<in> set s \<Longrightarrow> \<not> p x \<Longrightarrow> x \<in> set (strip_where p s)"
proof -
  assume a: "x \<in> set s" "\<not> p x"
  then have "x \<in> set (rev (dropWhile p s))" by (simp add: dropWhile_keeps)
  from this a(2) have "x \<in> set (dropWhile p (rev (dropWhile p s)))" by (rule dropWhile_keeps)
  then show ?thesis by (simp add: strip_where_def)
qed

lemma strip_where_append_keep:
  assumes "s \<noteq> []" "\<not> p (hd s)" "\<not> p (last s)"
  shows "strip_where p (pre @ s) = dropWhile p pre @ s"
proof -
  from assms(1,2) have a: "dropWhile p (pre @ s) = dropWhile p pre @ s"
    by (induction pre) (simp_all add: dropWhile_hd_id)
  from assms have "rev s \<noteq> []" "\<not> p (hd (rev s))" by (simp_all add: hd_rev)
  then have "dropWhile p (rev s @ rev (dropWhile p pre)) = rev s @ rev (dropWhile p pre)"
    by (cases "rev s") simp_all
  with a show ?thesis by (simp add: strip_where_def)
qed

lemma lower_id: "\<forall>c\<in>set s. \<not> is_upper_char c \<Longrightarrow> lower s = s"
  by (simp add: lower_def lower_char_def map_idI)

lemma not_isupper_sub:
  assumes "\<forall>c\<in>set s. \<not> is_upper_char c"
  shows "\<not> isupper (strip_chars cs (take n s))"
proof
  assume "isupper (strip_chars cs (take n s))"
  then obtain c where "c \<in> set (strip_chars cs (take n s))" "is_upper_char c"
    by (auto simp: isupper_def list_ex_iff)
  moreover have "set (strip_chars cs (take n s)) \<subseteq> set s"
    using set_strip_where [of "\<lambda>c. c \<in> set cs" "take n s"] set_take_subset [of n s]
    by (auto simp: strip_chars_def)
  ultimately show False using assms by blast
qed

subsection \<open>Joined words\<close>

lemma join_words_Cons: "ws \<noteq> [] \<Longrightarrow> join_words (w # ws) = w @ '' '' @ join_words ws"
  by (cases ws) simp_all

lemma join_words_snoc: "ws \<noteq> [] \<Longrightarrow> join_words (ws @ [w]) = join_words ws @ '' '' @ w"
  by (induction ws rule: join_words.induct) simp_all

lemma join_words_chars:
  "\<forall>w\<in>set ws. plain_word w \<Longrightarrow> c \<in> set (join_words ws) \<Longrightarrow> is_lower_char c \<or> c = CHR '' ''"
  by (induction ws rule: join_words.induct) (auto simp: plain_word_def list_all_iff)

lemma join_words_no_upper:
  "\<forall>w\<in>set ws. plain_word w \<Longrightarrow> \<forall>c\<in>set (join_words ws). \<not> is_upper_char c"
  using join_words_chars lower_not_upper space_is_sep(3) by blast

lemma join_words_ends:
  "ws \<noteq> [] \<Longrightarrow> \<forall>w\<in>set ws. plain_word w \<Longrightarrow>
   join_words ws \<noteq> [] \<and> is_lower_char (hd (join_words ws)) \<and> is_lower_char (last (join_words ws))"
proof (induction ws rule: join_words.induct)
  case 1
  then show ?case by simp
next
  case (2 w)
  then show ?case
    by (cases w) (auto simp: plain_word_def list_all_iff)
next
  case (3 w v ws)
  then have w: "w \<noteq> []" "is_lower_char (hd w)" by (cases w; simp add: plain_word_def)+
  from 3 have ih: "join_words (v # ws) \<noteq> []" "is_lower_char (last (join_words (v # ws)))"
    by simp_all
  from w ih show ?case by simp
qed

lemma re_split_plain: "list_all is_lower_char w \<Longrightarrow> re_split w = [w]"
proof -
  assume "list_all is_lower_char w"
  then have "\<forall>c\<in>set w. \<not> is_sep c" by (auto simp: list_all_iff lower_not_sep)
  then have d: "dropWhile (\<lambda>c. \<not> is_sep c) w = []" by simp
  show ?thesis by (subst re_split.simps) (simp only: d list.case)
qed

lemma re_split_join_words:
  "ws \<noteq> [] \<Longrightarrow> \<forall>w\<in>set ws. plain_word w \<Longrightarrow> re_split (join_words ws) = ws"
proof (induction ws rule: join_words.induct)
  case 1
  then show ?case by simp
next
  case (2 w)
  then show ?case by (simp add: re_split_plain plain_word_def)
next
  case (3 w v ws)
  let ?r = "join_words (v # ws)"
  from 3 have nosep: "\<forall>c\<in>set w. \<not> is_sep c"
    by (auto simp: plain_word_def list_all_iff lower_not_sep)
  from 3 have ih: "re_split ?r = v # ws" by simp
  from 3 have "?r \<noteq> [] \<and> is_lower_char (hd ?r)"
    using join_words_ends [of "v # ws"] by simp
  then have keep: "dropWhile is_sep ?r = ?r"
    by (simp add: dropWhile_hd_id lower_not_sep)
  from nosep have d: "dropWhile (\<lambda>c. \<not> is_sep c) (w @ CHR '' '' # ?r) = CHR '' '' # ?r"
    by (simp add: space_is_sep)
  from nosep have t: "takeWhile (\<lambda>c. \<not> is_sep c) (w @ CHR '' '' # ?r) = w"
    by (simp add: space_is_sep)
  have "re_split (w @ CHR '' '' # ?r) = w # re_split ?r"
    by (subst re_split.simps) (simp only: d t keep list.case)
  with ih show ?case by simp
qed

lemma strip_join_words:
  assumes "ws \<noteq> []" "\<forall>w\<in>set ws. plain_word w"
  shows "strip (join_words ws) = join_words ws"
  using join_words_ends [OF assms]
  by (simp add: strip_def strip_where_id lower_not_space)

lemma lower_join_words:
  assumes "\<forall>w\<in>set ws. plain_word w"
  shows "lower (join_words ws) = join_words ws"
  using join_words_no_upper [OF assms] by (rule lower_id)


subsection \<open>The text before a trailing keyword\<close>

lemma endswith_append: "endswith (p @ kw) kw"
  by (simp add: endswith_def)

lemma startswith_drop_short:
  assumes "kw \<noteq> []" "length p < i"
  shows "\<not> startswith (drop i (p @ kw)) kw"
proof
  assume "startswith (drop i (p @ kw)) kw"
  then have "take (length kw) (drop i (p @ kw)) = kw" by (simp add: startswith_def)
  then have "length (take (length kw) (drop i (p @ kw))) = length kw" by simp
  with assms show False by (cases kw) auto
qed

lemma find_append_None: "find P xs = None \<Longrightarrow> find P (xs @ ys) = find P ys"
  by (induction xs) (auto split: if_splits)

lemma rfind_append:
  assumes "kw \<noteq> []"
  shows "rfind (p @ kw) kw = Some (length p)"
proof -
  let ?s = "p @ kw"
  let ?P = "\<lambda>i. startswith (drop i ?s) kw"
  have "[0..<length p + Suc (length kw)] = [0..<length p] @ [length p..<length p + Suc (length kw)]"
    by (rule upt_add_eq_append) simp
  moreover have "[length p..<length p + Suc (length kw)]
      = length p # [Suc (length p)..<length p + Suc (length kw)]"
    by (rule upt_conv_Cons) simp
  ultimately
  have split: "[0..<Suc (length ?s)] = [0..<length p] @ length p # [Suc (length p)..<Suc (length ?s)]"
    by simp
  have none: "find ?P (rev [Suc (length p)..<Suc (length ?s)]) = None"
  proof -
    have "\<not> ?P i" if "i \<in> set (rev [Suc (length p)..<Suc (length ?s)])" for i
    proof -
      from that have "length p < i" by auto
      with assms show ?thesis by (rule startswith_drop_short)
    qed
    then show ?thesis unfolding find_None_iff by blast
  qed
  have here: "?P (length p)" by (simp add: startswith_def)
  have "rev [0..<Suc (length ?s)]
      = rev [Suc (length p)..<Suc (length ?s)] @ length p # rev [0..<length p]"
    unfolding split by simp
  then have "find ?P (rev [0..<Suc (length ?s)]) = find ?P (length p # rev [0..<length p])"
    by (simp only: find_append_None [OF none])
  also from here have "\<dots> = Some (length p)" by (simp only: find.simps if_True)
  finally have "find ?P (rev [0..<Suc (length ?s)]) = Some (length p)" .
  then show ?thesis by (simp add: rfind_def)
qed

lemma rsplit1_head_append: "kw \<noteq> [] \<Longrightarrow> rsplit1_head (p @ kw) kw = p"
  by (simp add: rsplit1_head_def rfind_append)

subsection \<open>Ways for a term to be generic\<close>

lemma generic_suffix_True: "generic_suffix t kw = Some b \<Longrightarrow> b"
  by (auto simp: generic_suffix_def Let_def split: if_splits)

lemma generic_suffixes_found:
  "kw \<in> set kws \<Longrightarrow> generic_suffix t kw = Some True \<Longrightarrow> generic_suffixes t kws = Some True"
proof (induction kws)
  case Nil
  then show ?case by simp
next
  case (Cons k kws)
  show ?case
  proof (cases "generic_suffix t k")
    case None
    with Cons show ?thesis by auto
  next
    case (Some b)
    with generic_suffix_True [OF Some] show ?thesis by simp
  qed
qed

lemma generic_suffixes_True: "generic_suffixes t kws = Some b \<Longrightarrow> b"
  by (induction kws) (auto split: option.splits dest: generic_suffix_True)

lemma is_generic_by_suffix:
  assumes "\<not> isupper (strip_chars '' ,;:-'' (take (length (strip term) - length '' syndrome'') (strip term)))"
    and "kw \<in> set [''disease'', ''syndrome'', ''disorder'']"
    and "generic_suffix (lower (strip term)) kw = Some True"
  shows "is_generic term"
proof -
  from generic_suffixes_found [OF assms(2,3)]
  have "generic_suffixes (lower (strip term)) [''disease'', ''syndrome'', ''disorder''] = Some True" .
  with assms(1) show ?thesis by (simp add: is_generic_def Let_def)
qed

lemma is_generic_by_parts:
  assumes "\<not> isupper (strip_chars '' ,;:-'' (take (length (strip term) - length '' syndrome'') (strip term)))"
    and "length (re_split (lower (strip term))) \<le> 2"
    and "list_all (\<lambda>part. part \<in> set GENERIC_PARTS) (re_split (lower (strip term)))"
  shows "is_generic term"
proof (cases "generic_suffixes (lower (strip term)) [''disease'', ''syndrome'', ''disorder'']")
  case None
  with assms show ?thesis by (simp add: is_generic_def Let_def)
next
  case (Some b)
  with generic_suffixes_True [OF Some] assms(1) show ?thesis
    by (simp add: is_generic_def Let_def)
qed


subsection \<open>Terms made of generic words\<close>

lemma qualifier_terms_plain:
  "set ws \<subseteq> set qualifier_words \<Longrightarrow> \<forall>w\<in>set ws. plain_word w"
  using qualifier_words_plain by blast

lemma join_words_not_acronym:
  assumes "\<forall>w\<in>set ws. plain_word w"
  shows "\<not> isupper (strip_chars cs (take n (join_words ws)))"
  using join_words_no_upper [OF assms] by (rule not_isupper_sub)

lemma generic_words_term:
  assumes ne: "ws \<noteq> []" and len: "length ws \<le> 2" and sub: "set ws \<subseteq> set qualifier_words"
  shows "is_generic (join_words ws)"
proof -
  from sub have plain: "\<forall>w\<in>set ws. plain_word w" by (rule qualifier_terms_plain)
  have st: "strip (join_words ws) = join_words ws" using ne plain by (rule strip_join_words)
  have lo: "lower (join_words ws) = join_words ws" using plain by (rule lower_join_words)
  have sp: "re_split (join_words ws) = ws" using ne plain by (rule re_split_join_words)
  from sub have all: "list_all (\<lambda>part. part \<in> set GENERIC_PARTS) ws"
    using qualifier_words_generic by (auto simp: list_all_iff)
  show ?thesis
  proof (rule is_generic_by_parts)
    show "\<not> isupper (strip_chars '' ,;:-''
            (take (length (strip (join_words ws)) - length '' syndrome'') (strip (join_words ws))))"
      unfolding st using plain by (rule join_words_not_acronym)
    show "length (re_split (lower (strip (join_words ws)))) \<le> 2"
      unfolding st lo sp by (rule len)
    show "list_all (\<lambda>part. part \<in> set GENERIC_PARTS) (re_split (lower (strip (join_words ws))))"
      unfolding st lo sp by (rule all)
  qed
qed

lemma strip_where_trailing:
  assumes "s \<noteq> []" "\<not> p (hd s)" "\<not> p (last s)" "p c"
  shows "strip_where p (s @ [c]) = s"
proof -
  from assms have a: "dropWhile p (s @ [c]) = s @ [c]" by (cases s) simp_all
  from assms have "rev s \<noteq> []" "\<not> p (hd (rev s))" by (simp_all add: hd_rev)
  then have "dropWhile p (rev s) = rev s" by (rule dropWhile_hd_id)
  with assms(4) a show ?thesis by (simp add: strip_where_def)
qed

lemma keyword_plain:
  "kw \<in> set [''disease'', ''syndrome'', ''disorder''] \<Longrightarrow> plain_word kw"
proof -
  have "list_all plain_word [''disease'', ''syndrome'', ''disorder'']" by code_simp
  then show "kw \<in> set [''disease'', ''syndrome'', ''disorder''] \<Longrightarrow> plain_word kw"
    unfolding list_all_iff by blast
qed

lemma generic_words_keyword:
  assumes sub: "set qs \<subseteq> set qualifier_words"
    and kw: "kw \<in> set [''disease'', ''syndrome'', ''disorder'']"
  shows "is_generic (join_words (qs @ [kw]))"
proof -
  let ?t = "join_words (qs @ [kw])"
  from sub have qplain: "\<forall>w\<in>set qs. plain_word w" by (rule qualifier_terms_plain)
  with keyword_plain [OF kw] have plain: "\<forall>w\<in>set (qs @ [kw]). plain_word w" by simp
  have st: "strip ?t = ?t" using plain by (intro strip_join_words) simp_all
  have lo: "lower ?t = ?t" using plain by (rule lower_join_words)
  from keyword_plain [OF kw] have kwne: "kw \<noteq> []" by (simp add: plain_word_def)
  have acr: "\<not> isupper (strip_chars '' ,;:-'' (take (length (strip ?t) - length '' syndrome'') (strip ?t)))"
    unfolding st using plain by (rule join_words_not_acronym)
  have "generic_suffix ?t kw = Some True"
  proof (cases "qs = []")
    case True
    then have "?t = [] @ kw" by simp
    then have "rsplit1_head ?t kw = []" using rsplit1_head_append [OF kwne, of "[]"] by simp
    moreover have "endswith ?t kw" using True by (simp add: endswith_def)
    ultimately show ?thesis by (simp add: generic_suffix_def strip_chars_def)
  next
    case False
    let ?j = "join_words qs"
    from False have t: "?t = (?j @ '' '') @ kw" by (simp add: join_words_snoc)
    from join_words_ends [OF False qplain]
    have j: "?j \<noteq> []" "is_lower_char (hd ?j)" "is_lower_char (last ?j)" by simp_all
    have e: "endswith ?t kw" unfolding t by (rule endswith_append)
    have r: "rsplit1_head ?t kw = ?j @ '' ''" unfolding t using kwne by (rule rsplit1_head_append)
    have "strip_where (\<lambda>c. c \<in> set '' -;,'') (?j @ [CHR '' '']) = ?j"
    proof (rule strip_where_trailing)
      show "?j \<noteq> []" by (rule j(1))
      show "hd ?j \<notin> set '' -;,''" using j(2) by (rule lower_not_punct)
      show "last ?j \<notin> set '' -;,''" using j(3) by (rule lower_not_punct)
      show "CHR '' '' \<in> set '' -;,''" by simp
    qed
    then have p: "strip_chars '' -;,'' (?j @ '' '') = ?j" by (simp add: strip_chars_def)
    have sp: "re_split ?j = qs" using False qplain by (rule re_split_join_words)
    from sub have all: "list_all (\<lambda>part. part \<in> set GENERIC_PARTS) qs"
      using qualifier_words_generic by (auto simp: list_all_iff)
    from e j(1) all show ?thesis
      unfolding generic_suffix_def Let_def r p sp by simp
  qed
  then have "generic_suffix (lower (strip ?t)) kw = Some True" unfolding st lo .
  with acr kw show ?thesis by (rule is_generic_by_suffix)
qed

subsection \<open>Acronym syndromes\<close>

lemma dropWhile_takeWhile_Nil: "dropWhile p (takeWhile p xs) = []"
  by (induction xs) auto

lemma acronym_syndrome:
  assumes "isupper p"
  shows "\<not> is_generic (p @ '' syndrome'')"
proof -
  let ?p1 = "dropWhile is_space p"
  let ?cs = "'' ,;:-''"
  from assms obtain c where c: "c \<in> set p" "is_upper_char c"
    by (auto simp: isupper_def list_ex_iff)
  from assms have nolow: "\<forall>x\<in>set p. \<not> is_lower_char x"
    by (simp add: isupper_def list_all_iff)
  from c(1) upper_not_space [OF c(2)] have c1: "c \<in> set ?p1" by (rule dropWhile_keeps)
  then have ne: "?p1 \<noteq> []" by (cases ?p1) simp_all
  then have hd1: "\<not> is_space (hd ?p1)" by (rule hd_dropWhile)
  let ?s = "?p1 @ '' syndrome''"
  have eq: "p @ '' syndrome'' = takeWhile is_space p @ ?s"
    by (simp only: append_assoc [symmetric] takeWhile_dropWhile_id)
  have step: "strip_where is_space (takeWhile is_space p @ ?s)
      = dropWhile is_space (takeWhile is_space p) @ ?s"
  proof (rule strip_where_append_keep)
    show "?s \<noteq> []" by simp
    from ne hd1 show "\<not> is_space (hd ?s)" by simp
    show "\<not> is_space (last ?s)" by (simp add: is_space_def)
  qed
  have orig: "strip (p @ '' syndrome'') = ?s"
    unfolding strip_def by (subst eq) (simp only: step dropWhile_takeWhile_Nil append_Nil)
  have e: "endswith ?s '' syndrome''" by (rule endswith_append)
  have tk: "take (length ?s - length '' syndrome'') ?s = ?p1" by simp
  let ?prefix = "strip_chars ?cs ?p1"
  from c1 upper_not_punct [OF c(2)] have cin: "c \<in> set ?prefix"
    unfolding strip_chars_def by (rule strip_where_keeps)
  have "set ?prefix \<subseteq> set p"
    using set_strip_where [of "\<lambda>c. c \<in> set ?cs" ?p1] set_dropWhileD [of _ is_space p]
    unfolding strip_chars_def by blast
  with nolow have "\<forall>x\<in>set ?prefix. \<not> is_lower_char x" by blast
  with cin c(2) have up: "?prefix \<noteq> [] \<and> isupper ?prefix"
    by (auto simp: isupper_def list_ex_iff list_all_iff)
  show ?thesis
    unfolding is_generic_def Let_def orig tk using e up by simp
qed

lemma generic_never_linked:
  "is_generic (disease_name_of ent) \<Longrightarrow> associate_one net ss genes ent = genes"
  by (simp add: associate_one_def Let_def)

text \<open>
  Claim C4. The filter classifies \<open>disease\<close> and \<open>autosomal recessive\<close> as generic, and
  with them every term of one or two generic qualifier words and every term of generic
  qualifier words followed by \<open>disease\<close>, \<open>syndrome\<close> or \<open>disorder\<close> (words joined by
  single spaces; a word has no hyphen, so that the hyphenated members of
  \<open>GENERIC_PARTS\<close> count as two words, and are generic on their own). A generic term is
  never linked to a gene. A term whose text before a trailing \<open>" syndrome"\<close> is upper
  case (some upper-case letter and no lower-case one) is not generic, also when that text
  is a generic qualifier word in capitals, such as \<open>SHORT\<close>.
\<close>

theorem generic_term_filter:
  "is_generic ''disease'' \<and> is_generic ''autosomal recessive'' \<and>
   is_generic ''single-system'' \<and> is_generic ''multi-system'' \<and>
   (\<forall>ws. ws \<noteq> [] \<and> length ws \<le> 2 \<and> set ws \<subseteq> set qualifier_words
      \<longrightarrow> is_generic (join_words ws)) \<and>
   (\<forall>qs kw. set qs \<subseteq> set qualifier_words \<and> kw \<in> set [''disease'', ''syndrome'', ''disorder'']
      \<longrightarrow> is_generic (join_words (qs @ [kw]))) \<and>
   (\<forall>p. isupper p \<longrightarrow> \<not> is_generic (p @ '' syndrome'')) \<and>
   (\<forall>q\<in>set qualifier_words. \<not> is_generic (upper q @ '' syndrome'')) \<and>
   (\<forall>net ss genes ent.
      is_generic (disease_name_of ent) \<longrightarrow> associate_one net ss genes ent = genes)"
proof (intro conjI allI impI)
  show "is_generic ''disease''" by code_simp
  show "is_generic ''autosomal recessive''" by code_simp
  show "is_generic ''single-system''" by code_simp
  show "is_generic ''multi-system''" by code_simp
next
  fix ws :: "string list"
  assume "ws \<noteq> [] \<and> length ws \<le> 2 \<and> set ws \<subseteq> set qualifier_words"
  then show "is_generic (join_words ws)" by (intro generic_words_term) simp_all
next
  fix qs :: "string list" and kw
  assume "set qs \<subseteq> set qualifier_words \<and> kw \<in> set [''disease'', ''syndrome'', ''disorder'']"
  then show "is_generic (join_words (qs @ [kw]))" by (intro generic_words_keyword) simp_all
next
  fix p assume "isupper p"
  then show "\<not> is_generic (p @ '' syndrome'')" by (rule acronym_syndrome)
next
  have "list_all (\<lambda>q. \<not> is_generic (upper q @ '' syndrome'')) qualifier_words" by code_simp
  then show "\<forall>q\<in>set qualifier_words. \<not> is_generic (upper q @ '' syndrome'')"
    by (simp only: list_all_iff)
next
  fix net :: network and ss genes ent
  assume "is_generic (disease_name_of ent)"
  then show "associate_one net ss genes ent = genes" by (rule generic_never_linked)
qed

theorem generic_term_filter_witness:
  "set [''tall'', ''stature''] \<subseteq> set qualifier_words \<and> is_generic ''tall stature'' \<and>
   set [''rare'', ''genetic''] \<subseteq> set qualifier_words \<and> is_generic ''rare genetic disorder'' \<and>
   isupper ''SHORT'' \<and> ''short'' \<in> set qualifier_words \<and> \<not> is_generic ''SHORT syndrome'' \<and>
   is_generic (disease_name_of generic_1) \<and>
   associate_one net_ok [sentence_1] [gene_a, gene_b] generic_1 = [gene_a, gene_b]"
proof -
  note filter = generic_term_filter
  have w: "[''tall'', ''stature''] \<noteq> [] \<and> length [''tall'', ''stature''] \<le> 2 \<and>
      set [''tall'', ''stature''] \<subseteq> set qualifier_words"
    by code_simp
  with filter have "is_generic (join_words [''tall'', ''stature''])" by blast
  then have a: "is_generic ''tall stature''" by simp
  have q: "set [''rare'', ''genetic''] \<subseteq> set qualifier_words \<and>
      ''disorder'' \<in> set [''disease'', ''syndrome'', ''disorder'']"
    by code_simp
  with filter have "is_generic (join_words ([''rare'', ''genetic''] @ [''disorder'']))" by blast
  then have b: "is_generic ''rare genetic disorder''" by simp
  have u: "isupper ''SHORT''" by code_simp
  with filter have "\<not> is_generic (''SHORT'' @ '' syndrome'')" by blast
  then have c: "\<not> is_generic ''SHORT syndrome''" by simp
  have s: "''short'' \<in> set qualifier_words" by code_simp
  have g: "is_generic (disease_name_of generic_1)" by code_simp
  with filter have d: "associate_one net_ok [sentence_1] [gene_a, gene_b] generic_1 = [gene_a, gene_b]"
    by blast
  from w a q b u s c g d show ?thesis by blast
qed

section \<open>The CSV writer\<close>

lemma foldl_writerow:
  "foldl (\<lambda>f gene. writerow f (r gene)) f0 rows = f0 @ map r rows"
  by (induction rows arbitrary: f0) (simp_all add: writerow_def)


text \<open>
  Claim C9. For every list of \<open>GeneInfo\<close> records, \<open>write_csv\<close> on a path that can be
  opened produces a file whose first row is the seven headers and whose following rows
  are the records, in the order of the list, each with its seven fields in the order of
  the columns.
\<close>

theorem write_csv_rows:
  assumes "writable path"
  shows "\<exists>f. write_csv writable files rows path = Inr (files(path \<mapsto> f)) \<and>
           length f = Suc (length rows) \<and>
           f ! 0 = [''HGNC ID'', ''Gene Symbol'', ''HGNC Gene Name'', ''Gene Aliases'',
                    ''hg38 Coordinates'', ''hg19 Coordinates'', ''Disease''] \<and>
           (\<forall>i<length rows.
              f ! Suc i = [GeneInfo.hgnc_id (rows ! i), gene_symbol (rows ! i), gene_name (rows ! i),
                           gene_aliases (rows ! i), coord_hg38 (rows ! i), coord_hg19 (rows ! i),
                           disease (rows ! i)])"
proof -
  let ?r = "\<lambda>gene. [GeneInfo.hgnc_id gene, gene_symbol gene, gene_name gene, gene_aliases gene,
                     coord_hg38 gene, coord_hg19 gene, disease gene]"
  let ?f = "headers # map ?r rows"
  from assms have "write_csv writable files rows path = Inr (files(path \<mapsto> ?f))"
    unfolding write_csv_def Let_def foldl_writerow by (simp add: writerow_def)
  moreover have "length ?f = Suc (length rows)" by simp
  moreover have "?f ! 0 = [''HGNC ID'', ''Gene Symbol'', ''HGNC Gene Name'', ''Gene Aliases'',
                    ''hg38 Coordinates'', ''hg19 Coordinates'', ''Disease'']"
    by (simp add: headers_def)
  moreover have "\<forall>i<length rows. ?f ! Suc i = ?r (rows ! i)" by simp
  ultimately show ?thesis by blast
qed

theorem write_csv_rows_witness:
  "csv_paths ''out.csv'' \<and>
   (\<exists>f. write_csv csv_paths Map.empty [info_1, info_2] ''out.csv'' = Inr [''out.csv'' \<mapsto> f] \<and>
        length f = Suc (length [info_1, info_2]) \<and>
        f ! 0 = [''HGNC ID'', ''Gene Symbol'', ''HGNC Gene Name'', ''Gene Aliases'',
                 ''hg38 Coordinates'', ''hg19 Coordinates'', ''Disease''] \<and>
        (\<forall>i<length [info_1, info_2].
           f ! Suc i = [GeneInfo.hgnc_id ([info_1, info_2] ! i), gene_symbol ([info_1, info_2] ! i),
                        gene_name ([info_1, info_2] ! i), gene_aliases ([info_1, info_2] ! i),
                        coord_hg38 ([info_1, info_2] ! i), coord_hg19 ([info_1, info_2] ! i),
                        disease ([info_1, info_2] ! i)])) \<and>
   write_csv csv_paths Map.empty [info_1, info_2] ''out.txt'' = Inl OSError"
proof -
  have h: "csv_paths ''out.csv''" by code_simp
  have e: "write_csv csv_paths Map.empty [info_1, info_2] ''out.txt'' = Inl OSError"
    by (simp add: write_csv_def csv_paths_def endswith_def)
  from write_csv_rows [where writable = csv_paths and path = "''out.csv''"
         and files = Map.empty and rows = "[info_1, info_2]", OF h] h e
  show ?thesis by blast
qed


section \<open>A badly formatted identifier\<close>

lemma ebind_simps [simp]:
  "ebind (Inl e) f = Inl e"
  "ebind (Inr x) f = f x"
  by (simp_all add: ebind_def)













section \<open>Failures of the enrichment lookups\<close>

lemma hgnc_api_failure:
  assumes "net (''https://rest.genenames.org/'' @ path, []) = Raises \<or>
     (\<exists>resp. net (''https://rest.genenames.org/'' @ path, []) = Responds resp \<and>
        (400 \<le> status_code resp \<and> status_code resp < 600 \<or> resp_json resp = None))"
  shows "\<exists>e. hgnc_api net path = Inl e"
  using assms by (auto simp: hgnc_api_def raise_for_status_def)

lemma fetch_hgnc_by_symbol_swallows:
  "hgnc_api net (''fetch/symbol/'' @ symb) = Inl e \<Longrightarrow> fetch_hgnc_by_symbol net symb = Inr (JObj [])"
  by (simp add: fetch_hgnc_by_symbol_def)

lemma fetch_hgnc_by_id_swallows:
  "(\<And>path. \<exists>e. hgnc_api net path = Inl e) \<Longrightarrow> fetch_hgnc_by_id net hgnc = Inr (JObj [])"
proof -
  assume a: "\<And>path. \<exists>e. hgnc_api net path = Inl e"
  show ?thesis
  proof (cases "hgnc = IdStr [] \<or> hgnc = IdInt 0")
    case True
    then show ?thesis by (simp add: fetch_hgnc_by_id_def)
  next
    case False
    let ?s = "case hgnc of IdStr x \<Rightarrow> x | IdInt i \<Rightarrow> str_int i"
    let ?ident = "if startswith ?s ''HGNC:'' then ?s else ''HGNC:'' @ ?s"
    from a [of "''fetch/hgnc_id/'' @ ?ident"] obtain e
      where "hgnc_api net (''fetch/hgnc_id/'' @ ?ident) = Inl e" ..
    with False show ?thesis by (simp add: fetch_hgnc_by_id_def Let_def)
  qed
qed

lemma fetch_ncbi_aliases_swallows:
  assumes "\<And>rq. net rq = Raises \<or> (\<exists>resp. net rq = Responds resp \<and> resp_json resp = None)"
  shows "fetch_ncbi_aliases net entrez_id = Inr []"
proof -
  let ?rq = "(''https://eutils.ncbi.nlm.nih.gov/entrez/eutils/esummary.fcgi''
                @ ''?db=gene&id='' @ entrez_id @ ''&retmode=json'', [])"
  from assms [of ?rq] show ?thesis
    by (auto simp: fetch_ncbi_aliases_def Let_def)
qed

lemma fetch_coordinates_swallows:
  assumes "\<And>rq. net rq = Raises \<or>
     (\<exists>resp. net rq = Responds resp \<and> (status_code resp \<noteq> 200 \<or> resp_json resp = None))"
  shows "fetch_coordinates_by_ensembl fmt net ensembl_id assembly = Inr []"
proof -
  let ?base = "if lower assembly = ''hg19'' \<or> lower assembly = ''grch37''
             then ''https://grch37.rest.ensembl.org'' else ''https://rest.ensembl.org''"
  let ?rq = "(?base @ ''/lookup/id/'' @ ensembl_id @ ''?content-type=application/json'', [])"
  from assms [of ?rq] show ?thesis
    unfolding fetch_coordinates_by_ensembl_def Let_def by auto
qed

text \<open>
  Claim C7, as the code has it. On a network or parse failure, that is when the request
  raises or the body of the reply does not parse as JSON, the enrichment fetches return
  an empty value and do not raise: \<open>fetch_hgnc_by_symbol\<close> and \<open>fetch_hgnc_by_id\<close>
  return \<open>{}\<close>, \<open>fetch_ncbi_aliases\<close> returns \<open>[]\<close> and
  \<open>fetch_coordinates_by_ensembl\<close> returns \<open>""\<close>. The same holds for an error
  status where the function looks at the status (\<open>hgnc_api_failure\<close>).
\<close>

theorem fetch_failures_swallowed:
  assumes "\<And>rq. net rq = Raises \<or> (\<exists>resp. net rq = Responds resp \<and> resp_json resp = None)"
  shows "fetch_hgnc_by_symbol net symb = Inr (JObj []) \<and>
         fetch_hgnc_by_id net hgnc = Inr (JObj []) \<and>
         fetch_ncbi_aliases net entrez_id = Inr [] \<and>
         fetch_coordinates_by_ensembl fmt net ensembl_id assembly = Inr []"
proof -
  have api: "\<exists>e. hgnc_api net path = Inl e" for path
    using assms [of "(''https://rest.genenames.org/'' @ path, [])"]
    by (intro hgnc_api_failure) blast
  from api [of "''fetch/symbol/'' @ symb"] have "fetch_hgnc_by_symbol net symb = Inr (JObj [])"
    by (auto intro: fetch_hgnc_by_symbol_swallows)
  moreover from api have "fetch_hgnc_by_id net hgnc = Inr (JObj [])"
    by (rule fetch_hgnc_by_id_swallows)
  moreover from assms have "fetch_ncbi_aliases net entrez_id = Inr []"
    by (rule fetch_ncbi_aliases_swallows)
  moreover have "fetch_coordinates_by_ensembl fmt net ensembl_id assembly = Inr []"
    using assms by (intro fetch_coordinates_swallows) blast
  ultimately show ?thesis by blast
qed



theorem fetch_failures_swallowed_witness:
  "(\<forall>rq. net_down rq = Raises) \<and>
   fetch_hgnc_by_symbol net_down ''TP53'' = Inr (JObj []) \<and>
   fetch_hgnc_by_id net_down (IdInt 11998) = Inr (JObj []) \<and>
   fetch_ncbi_aliases net_down ''7157'' = Inr [] \<and>
   fetch_coordinates_by_ensembl fmt_plain net_down ''ENSG00000141510'' ''hg38'' = Inr []"
proof -
  have h: "\<forall>rq. net_down rq = Raises" by (simp add: net_down_def)
  then have "\<And>rq. net_down rq = Raises \<or>
      (\<exists>resp. net_down rq = Responds resp \<and> resp_json resp = None)"
    by blast
  from fetch_failures_swallowed [of net_down "''TP53''" "IdInt 11998" "''7157''" fmt_plain
         "''ENSG00000141510''" "''hg38''", OF this] h
  show ?thesis by blast
qed

text \<open>
  The claim as the specification words it, that none of the four functions raises, fails:
  the navigation of the parsed JSON stands after the \<open>try\<close> block in each of them, so a
  reply that parses but is not a dict propagates an \<open>AttributeError\<close>. Here every reply
  is the JSON array \<open>[1]\<close>.
\<close>

theorem fetch_raises_on_unexpected_json:
  "fetch_hgnc_by_symbol net_array ''TP53'' = Inl AttributeError \<and>
   fetch_hgnc_by_id net_array (IdInt 11998) = Inl AttributeError \<and>
   fetch_ncbi_aliases net_array ''7157'' = Inl AttributeError \<and>
   fetch_coordinates_by_ensembl fmt_plain net_array ''ENSG00000141510'' ''hg38'' = Inl AttributeError"
proof (intro conjI)
  show "fetch_hgnc_by_symbol net_array ''TP53'' = Inl AttributeError" by code_simp
  show "fetch_hgnc_by_id net_array (IdInt 11998) = Inl AttributeError"
    by (simp add: fetch_hgnc_by_id_def Let_def hgnc_api_def net_array_def raise_for_status_def
          first_doc_def)
  show "fetch_ncbi_aliases net_array ''7157'' = Inl AttributeError" by code_simp
  show "fetch_coordinates_by_ensembl fmt_plain net_array ''ENSG00000141510'' ''hg38''
      = Inl AttributeError"
    by (simp add: fetch_coordinates_by_ensembl_def Let_def net_array_def)
qed

section \<open>The records of the extractor\<close>

text \<open>The matcher with a stack is the matcher with a continuation; it becomes the
  code equation of \<open>finditer_from\<close>.\<close>

lemma try_rep_first_some:
  "try_rep k s i c n m = first_some (\<lambda>j. run k s (i + j) c) (rev [n..<Suc m])"
proof (induction m)
  case 0
  show ?case
  proof (cases "n = 0")
    case True
    then show ?thesis
      by (subst try_rep.simps) (simp split: option.split)
  next
    case False
    then show ?thesis by (subst try_rep.simps) simp
  qed
next
  case (Suc m)
  show ?case
  proof (cases "Suc m < n")
    case True
    then show ?thesis by (subst try_rep.simps) simp
  next
    case False
    then have "rev [n..<Suc (Suc m)] = Suc m # rev [n..<Suc m]" by simp
    with False Suc show ?thesis
      by (subst try_rep.simps) (simp split: option.split)
  qed
qed

lemma run_rx_match:
  "run (R r # k) s i c = rx_match r s i c (\<lambda>j c'. run k s j c')"
proof (induction r arbitrary: k i c)
  case Eps
  show ?case by simp
next
  case (Chr p)
  show ?case by simp
next
  case (Rep n p)
  show ?case by (simp add: try_rep_first_some)
next
  case (Seq a b)
  have "(\<lambda>j c'. run (R b # k) s j c') = (\<lambda>j c'. rx_match b s j c' (\<lambda>j c'. run k s j c'))"
    by (intro ext) (rule Seq.IH(2))
  then show ?case by (simp add: Seq.IH(1))
next
  case (Alt a b)
  show ?case by (simp add: Alt.IH split: option.split)
next
  case (Opt a)
  show ?case by (simp add: Opt.IH split: option.split)
next
  case (Grp g a)
  have "(\<lambda>j c'. run (Close g i # k) s j c') = (\<lambda>j c'. run k s j ((g, i, j) # c'))"
    by (intro ext) simp
  then show ?case by (simp add: Grp.IH)
next
  case Bnd
  show ?case by simp
qed

lemma rx_match_run: "rx_match r s pos [] (\<lambda>j c. Some (j, c)) = run [R r] s pos []"
  by (simp add: run_rx_match)

lemma finditer_from_run [code]:
  "finditer_from r s pos =
     (if length s < pos then []
      else
        (case run [R r] s pos [] of
           None \<Rightarrow> finditer_from r s (Suc pos)
         | Some (j, c) \<Rightarrow>
             \<lparr>m_start = pos, m_end = j, m_caps = c\<rparr>
               # finditer_from r s (if pos < j then j else Suc pos)))"
  by (subst finditer_from.simps) (simp only: rx_match_run)

lemma rx_Seq: "rx_match (Seq a b) s i c k = rx_match a s i c (\<lambda>j c'. rx_match b s j c' k)"
  by simp

lemma rx_Grp: "rx_match (Grp g a) s i c k = rx_match a s i c (\<lambda>j c'. k j ((g, i, j) # c'))"
  by simp

lemma rx_Eps: "rx_match Eps s i c k = k i c"
  by simp

lemma Bnd_elim:
  assumes "rx_match Bnd s i c k = Some r"
  shows "word_boundary s i \<and> k i c = Some r"
  using assms by (simp split: if_splits)

lemma Alt_elim:
  assumes "rx_match (Alt a b) s i c k = Some r"
  shows "rx_match a s i c k = Some r \<or> rx_match b s i c k = Some r"
  using assms by (simp split: option.splits)

lemma Opt_elim:
  assumes "rx_match (Opt a) s i c k = Some r"
  shows "rx_match a s i c k = Some r \<or> k i c = Some r"
  using assms by (simp split: option.splits)

lemma rx_Rep:
  "rx_match (Rep n p) s i c k =
     first_some (\<lambda>j. k (i + j) c) (rev [n..<Suc (length (takeWhile p (drop i s)))])"
  by simp

declare rx_match.simps [simp del]

lemma first_some_SomeD: "first_some f xs = Some r \<Longrightarrow> \<exists>x\<in>set xs. f x = Some r"
  by (induction xs) (auto split: option.splits)

lemma takeWhile_run:
  assumes "j \<le> length (takeWhile p (drop i s))"
  shows "(j = 0 \<or> i + j \<le> length s) \<and> (\<forall>x<j. p (s ! (i + x)))"
proof
  have len: "length (takeWhile p (drop i s)) \<le> length s - i"
    using length_takeWhile_le [of p "drop i s"] by simp
  with assms show "j = 0 \<or> i + j \<le> length s" by (cases "i \<le> length s") auto
  show "\<forall>x<j. p (s ! (i + x))"
  proof (intro allI impI)
    fix x assume "x < j"
    with assms have x: "x < length (takeWhile p (drop i s))" by simp
    then have "takeWhile p (drop i s) ! x \<in> set (takeWhile p (drop i s))" by (rule nth_mem)
    then have "p (takeWhile p (drop i s) ! x)" by (rule set_takeWhileD [THEN conjunct2])
    moreover from x have "takeWhile p (drop i s) ! x = drop i s ! x" by (rule takeWhile_nth)
    moreover from x len have "drop i s ! x = s ! (i + x)" by simp
    ultimately show "p (s ! (i + x))" by simp
  qed
qed

lemma Rep_elim:
  assumes "rx_match (Rep n p) s i c k = Some r"
  obtains j where "n \<le> j" "j = 0 \<or> i + j \<le> length s" "\<forall>x<j. p (s ! (i + x))"
    "k (i + j) c = Some r"
proof -
  from assms have "first_some (\<lambda>j. k (i + j) c)
      (rev [n..<Suc (length (takeWhile p (drop i s)))]) = Some r"
    by (simp only: rx_Rep)
  from first_some_SomeD [OF this]
  obtain j where j: "j \<in> set (rev [n..<Suc (length (takeWhile p (drop i s)))])"
    and k: "k (i + j) c = Some r"
    by blast
  from j have "n \<le> j" "j \<le> length (takeWhile p (drop i s))" by auto
  with takeWhile_run [of j p i s] k that show ?thesis by blast
qed

lemma Chr_elim:
  assumes "rx_match (Chr p) s i c k = Some r"
  shows "i < length s \<and> p (s ! i) \<and> k (Suc i) c = Some r"
  using assms by (simp add: rx_match.simps split: if_splits)

lemma seqs_Cons: "rx_match (seqs (a # rs)) s i c k = rx_match a s i c (\<lambda>j c'. rx_match (seqs rs) s j c' k)"
  by (cases rs) (simp_all add: rx_Seq rx_Eps)

lemma lit_elim:
  "rx_match (seqs (map (\<lambda>x. Chr (q x)) w)) s i c k = Some r \<Longrightarrow> k (i + length w) c = Some r \<and> (w = [] \<or> i + length w \<le> length s)"
proof (induction w arbitrary: i)
  case Nil
  then show ?case by (simp add: rx_Eps)
next
  case (Cons x w)
  from Cons.prems have "rx_match (Chr (q x)) s i c (\<lambda>j c'. rx_match (seqs (map (\<lambda>x. Chr (q x)) w)) s j c' k) = Some r"
    by (simp add: seqs_Cons)
  from Chr_elim [OF this]
  have i: "i < length s" and rest: "rx_match (seqs (map (\<lambda>x. Chr (q x)) w)) s (Suc i) c k = Some r"
    by simp_all
  from Cons.IH [OF rest] i show ?case by auto
qed

lemma lit_i_elim:
  "rx_match (lit_i w) s i c k = Some r \<Longrightarrow> k (i + length w) c = Some r \<and> (w = [] \<or> i + length w \<le> length s)"
  unfolding lit_i_def by (rule lit_elim [where q = "\<lambda>x c. lower_char c = lower_char x"])

lemma lit_elim':
  "rx_match (lit w) s i c k = Some r \<Longrightarrow> k (i + length w) c = Some r \<and> (w = [] \<or> i + length w \<le> length s)"
  unfolding lit_def by (rule lit_elim [where q = "\<lambda>x c. c = x"])

lemma explicit_shape:
  assumes "rx_match explicit_pattern s i [] (\<lambda>j c. Some (j, c)) = Some (j, c)"
  shows "\<exists>b d e. c = [(2, d, e), (1, i, b)] \<and> i < b \<and> b \<le> d \<and> d < e \<and> e < j \<and> j \<le> length s \<and>
           (\<forall>x. i \<le> x \<and> x < b \<longrightarrow> symbol_char (s ! x)) \<and>
           (\<forall>x. d \<le> x \<and> x < e \<longrightarrow> is_digit_char (s ! x))"
proof -
  let ?k = "\<lambda>j c. Some (j, c)"
  let ?k7 = "\<lambda>j c'. rx_match (Chr (\<lambda>c. c = CHR '')'')) s j c' ?k"
  let ?k6 = "\<lambda>j c'. rx_match (Grp 2 (Rep 1 is_digit_char)) s j c' ?k7"
  let ?k5 = "\<lambda>j c'. rx_match (lit ''HGNC:'') s j c' ?k6"
  let ?k4 = "\<lambda>j c'. rx_match (Rep 0 (\<lambda>c. c \<noteq> CHR '')'')) s j c' ?k5"
  let ?k3 = "\<lambda>j c'. rx_match (Chr (\<lambda>c. c = CHR ''('')) s j c' ?k4"
  let ?k2 = "\<lambda>j c'. rx_match (Rep 0 is_space) s j c' ?k3"
  from assms
  have "rx_match Bnd s i [] (\<lambda>j c'. rx_match (Grp 1 (Rep 1 symbol_char)) s j c' ?k2) = Some (j, c)"
    by (simp only: explicit_pattern_def seqs.simps rx_Seq)
  from Bnd_elim [OF this]
  have g1: "rx_match (Rep 1 symbol_char) s i [] (\<lambda>j c'. ?k2 j ((1, i, j) # c')) = Some (j, c)"
    by (simp only: rx_Grp)
  from g1 obtain n1 where n1: "1 \<le> n1" "n1 = 0 \<or> i + n1 \<le> length s"
      "\<forall>x<n1. symbol_char (s ! (i + x))"
    and r2: "?k2 (i + n1) [(1, i, i + n1)] = Some (j, c)"
    by (rule Rep_elim)
  from r2 obtain n2 where r3: "?k3 (i + n1 + n2) [(1, i, i + n1)] = Some (j, c)"
    by (rule Rep_elim)
  from Chr_elim [OF r3] have r4: "?k4 (Suc (i + n1 + n2)) [(1, i, i + n1)] = Some (j, c)" by simp
  from r4 obtain n3 where r5: "?k5 (Suc (i + n1 + n2) + n3) [(1, i, i + n1)] = Some (j, c)"
    by (rule Rep_elim)
  let ?d = "Suc (i + n1 + n2) + n3 + length ''HGNC:''"
  from lit_elim' [OF r5] have r6: "?k6 ?d [(1, i, i + n1)] = Some (j, c)" by simp
  then have "rx_match (Rep 1 is_digit_char) s ?d [(1, i, i + n1)]
      (\<lambda>j c'. ?k7 j ((2, ?d, j) # c')) = Some (j, c)"
    by (simp only: rx_Grp)
  then obtain n4 where n4: "1 \<le> n4" "\<forall>x<n4. is_digit_char (s ! (?d + x))"
    and r7: "?k7 (?d + n4) [(2, ?d, ?d + n4), (1, i, i + n1)] = Some (j, c)"
    by (rule Rep_elim)
  from Chr_elim [OF r7] have last: "?d + n4 < length s"
    and fin: "Some (Suc (?d + n4), [(2, ?d, ?d + n4), (1, i, i + n1)]) = Some (j, c)"
    by simp_all
  from fin have j: "j = Suc (?d + n4)" and c: "c = [(2, ?d, ?d + n4), (1, i, i + n1)]" by simp_all
  have sym: "\<forall>x. i \<le> x \<and> x < i + n1 \<longrightarrow> symbol_char (s ! x)"
  proof (intro allI impI)
    fix x assume "i \<le> x \<and> x < i + n1"
    then have "x - i < n1" "i + (x - i) = x" by auto
    with n1(3) show "symbol_char (s ! x)" by metis
  qed
  have dig: "\<forall>x. ?d \<le> x \<and> x < ?d + n4 \<longrightarrow> is_digit_char (s ! x)"
  proof (intro allI impI)
    fix x assume "?d \<le> x \<and> x < ?d + n4"
    then have "x - ?d < n4" "?d + (x - ?d) = x" by auto
    with n4(2) show "is_digit_char (s ! x)" by metis
  qed
  from n1(1) n4(1) last j have "i < i + n1" "i + n1 \<le> ?d" "?d < ?d + n4" "?d + n4 < j" "j \<le> length s"
    by simp_all
  with c sym dig show ?thesis by blast
qed


lemma no_grp_advances:
  "no_grp r \<Longrightarrow> rx_match r s i c k = Some res \<Longrightarrow> \<exists>j\<ge>i. k j c = Some res"
proof (induction r arbitrary: i k)
  case Eps
  then show ?case by (auto simp: rx_Eps)
next
  case (Chr p)
  from Chr_elim [OF Chr.prems(2)] show ?case by (metis le_SucI order_refl)
next
  case (Rep n p)
  from Rep.prems(2) obtain j where "k (i + j) c = Some res" by (rule Rep_elim)
  then show ?case by (metis le_add1)
next
  case (Seq a b)
  from Seq.prems have na: "no_grp a" and nb: "no_grp b" by simp_all
  from Seq.prems(2) have "rx_match a s i c (\<lambda>j c'. rx_match b s j c' k) = Some res"
    by (simp only: rx_Seq)
  from Seq.IH(1) [OF na this] obtain j1 where j1: "i \<le> j1" "rx_match b s j1 c k = Some res"
    by blast
  from Seq.IH(2) [OF nb j1(2)] obtain j2 where "j1 \<le> j2" "k j2 c = Some res" by blast
  with j1(1) show ?case by (metis order_trans)
next
  case (Alt a b)
  from Alt.prems have na: "no_grp a" and nb: "no_grp b" by simp_all
  from Alt_elim [OF Alt.prems(2)] show ?case
  proof
    assume "rx_match a s i c k = Some res"
    from Alt.IH(1) [OF na this] show ?thesis .
  next
    assume "rx_match b s i c k = Some res"
    from Alt.IH(2) [OF nb this] show ?thesis .
  qed
next
  case (Opt a)
  from Opt.prems have na: "no_grp a" by simp
  from Opt_elim [OF Opt.prems(2)] show ?case
  proof
    assume "rx_match a s i c k = Some res"
    from Opt.IH [OF na this] show ?thesis .
  next
    assume "k i c = Some res"
    then show ?thesis by blast
  qed
next
  case (Grp g a)
  then show ?case by simp
next
  case Bnd
  from Bnd_elim [OF Bnd.prems(2)] show ?case by blast
qed

lemma no_grp_seqs_Chr: "no_grp (seqs (map (\<lambda>x. Chr (q x)) w))"
  by (induction w rule: induct_list012) simp_all

lemma no_grp_lit_i: "no_grp (lit_i w)"
  unfolding lit_i_def by (rule no_grp_seqs_Chr [where q = "\<lambda>x c. lower_char c = lower_char x"])

lemma context_shape:
  assumes "rx_match context_pattern s i [] (\<lambda>j c. Some (j, c)) = Some (j, c)"
  shows "\<exists>a. c = [(1, a, j)] \<and> i \<le> a \<and> a < j \<and> j \<le> length s \<and>
           (\<forall>x. a \<le> x \<and> x < j \<longrightarrow> symbol_char_i (s ! x))"
proof -
  let ?k = "\<lambda>j c. Some (j, c)"
  let ?h1 = "alts [lit_i ''variant'', lit_i ''variants'', lit_i ''mutation'', lit_i ''mutations'',
                 lit_i ''VUS'', lit_i ''VUSs'']"
  let ?h5 = "Opt (Alt (Seq (lit_i ''the'') (Rep 1 is_space)) (Seq (lit_i ''a'') (Rep 1 is_space)))"
  let ?k6 = "\<lambda>j c'. rx_match Bnd s j c' ?k"
  let ?k5 = "\<lambda>j c'. rx_match (Grp 1 (Rep 1 symbol_char_i)) s j c' ?k6"
  let ?k4 = "\<lambda>j c'. rx_match ?h5 s j c' ?k5"
  let ?k3 = "\<lambda>j c'. rx_match (Rep 1 is_space) s j c' ?k4"
  let ?k2 = "\<lambda>j c'. rx_match (lit_i ''in'') s j c' ?k3"
  let ?k1 = "\<lambda>j c'. rx_match (Rep 1 is_space) s j c' ?k2"
  have n1: "no_grp ?h1" by (simp add: no_grp_lit_i)
  have n5: "no_grp ?h5" by (simp add: no_grp_lit_i)
  from assms have "rx_match ?h1 s i [] ?k1 = Some (j, c)"
    by (simp only: context_pattern_def seqs.simps rx_Seq)
  from no_grp_advances [OF n1 this] obtain p1 where p1: "i \<le> p1" "?k1 p1 [] = Some (j, c)"
    by blast
  from p1(2) obtain m1 where "?k2 (p1 + m1) [] = Some (j, c)" by (rule Rep_elim)
  from lit_i_elim [OF this] have "?k3 (p1 + m1 + length ''in'') [] = Some (j, c)" by blast
  then obtain m2 where "?k4 (p1 + m1 + length ''in'' + m2) [] = Some (j, c)" by (rule Rep_elim)
  from no_grp_advances [OF n5 this] obtain a where a: "p1 + m1 + length ''in'' + m2 \<le> a"
    "?k5 a [] = Some (j, c)"
    by blast
  from a(2) have "rx_match (Rep 1 symbol_char_i) s a [] (\<lambda>j c'. ?k6 j ((1, a, j) # c')) = Some (j, c)"
    by (simp only: rx_Grp)
  then obtain n where n: "1 \<le> n" "n = 0 \<or> a + n \<le> length s"
      "\<forall>x<n. symbol_char_i (s ! (a + x))"
    and r: "?k6 (a + n) [(1, a, a + n)] = Some (j, c)"
    by (rule Rep_elim)
  from Bnd_elim [OF r] have "Some (a + n, [(1, a, a + n)]) = Some (j, c)" by blast
  then have j: "j = a + n" and c: "c = [(1, a, j)]" by auto
  have sym: "\<forall>x. a \<le> x \<and> x < j \<longrightarrow> symbol_char_i (s ! x)"
  proof (intro allI impI)
    fix x assume "a \<le> x \<and> x < j"
    with j have "x - a < n" "a + (x - a) = x" by auto
    with n(3) show "symbol_char_i (s ! x)" by metis
  qed
  from p1(1) a(1) have "i \<le> a" by simp
  moreover from n(1,2) j have "a < j" "j \<le> length s" by auto
  ultimately show ?thesis using c sym by blast
qed

lemma finditer_from_sound:
  "m \<in> set (finditer_from r s pos) \<Longrightarrow>
   rx_match r s (m_start m) [] (\<lambda>j c. Some (j, c)) = Some (m_end m, m_caps m)"
proof (induction r s pos rule: finditer_from.induct)
  case (1 r s pos)
  show ?case
  proof (cases "length s < pos")
    case True
    with "1.prems" show ?thesis by (simp add: finditer_from.simps [of r s pos])
  next
    case False
    show ?thesis
    proof (cases "rx_match r s pos [] (\<lambda>j c. Some (j, c))")
      case None
      with False "1.prems" have "m \<in> set (finditer_from r s (Suc pos))"
        by (simp add: finditer_from.simps [of r s pos])
      with "1.IH"(1) [OF False None] show ?thesis by simp
    next
      case (Some jc)
      obtain j c where jc: "jc = (j, c)" by (cases jc)
      with Some False "1.prems"
      have "m = \<lparr>m_start = pos, m_end = j, m_caps = c\<rparr> \<or>
            m \<in> set (finditer_from r s (if pos < j then j else Suc pos))"
        by (simp add: finditer_from.simps [of r s pos])
      then show ?thesis
      proof
        assume "m = \<lparr>m_start = pos, m_end = j, m_caps = c\<rparr>"
        with Some jc show ?thesis by simp
      next
        assume "m \<in> set (finditer_from r s (if pos < j then j else Suc pos))"
        with "1.IH"(2) [OF False Some jc [symmetric]] show ?thesis by simp
      qed
    qed
  qed
qed


subsection \<open>The dict of genes\<close>

lemma update_gene_symbols:
  "(\<And>g. symbol (f g) = symbol g) \<Longrightarrow> map symbol (update_gene sy f gs) = map symbol gs"
  by (induction gs) simp_all

lemma update_gene_member:
  "g' \<in> set (update_gene sy f gs) \<Longrightarrow> g' \<in> set gs \<or> (\<exists>g\<in>set gs. symbol g = sy \<and> g' = f g)"
  by (induction gs) (auto split: if_splits)

lemma mention_of_cong: "symbol g = symbol g' \<Longrightarrow> mention_of text g m = mention_of text g' m"
  by (simp add: mention_of_def)

lemma slice_length: "b \<le> length s \<Longrightarrow> length (slice s a b) = b - a"
  by (simp add: slice_def)

lemma slice_all:
  assumes "b \<le> length s" "\<forall>x. a \<le> x \<and> x < b \<longrightarrow> p (s ! x)"
  shows "list_all p (slice s a b)"
proof -
  have "\<forall>i<length (slice s a b). p (slice s a b ! i)"
  proof (intro allI impI)
    fix i assume "i < length (slice s a b)"
    with assms(1) have i: "i < b - a" by (simp add: slice_length)
    with assms(1) have "slice s a b ! i = s ! (a + i)" by (simp add: slice_def)
    moreover from i assms(2) have "p (s ! (a + i))" by simp
    ultimately show "p (slice s a b ! i)" by simp
  qed
  then show ?thesis by (simp add: list_all_length)
qed

text \<open>The invariant of the two loops.\<close>

lemma add_mention_ok:
  assumes inv: "distinct (map symbol genes)"
      "\<forall>g\<in>set genes. diseases g = None \<and> (\<forall>m\<in>set (mentions g). mention_of text g m)"
    and new: "mention_of text \<lparr>symbol = sy, hgnc_id = None, mentions = [], diseases = None\<rparr> (a, b)"
    and f: "\<And>g. symbol (f g) = symbol g \<and> diseases (f g) = diseases g \<and> mentions (f g) = mentions g"
  shows "distinct (map symbol (update_gene sy (\<lambda>g. g\<lparr>mentions := mentions g @ [(a, b)]\<rparr>)
                    (update_gene sy f genes))) \<and>
         (\<forall>g\<in>set (update_gene sy (\<lambda>g. g\<lparr>mentions := mentions g @ [(a, b)]\<rparr>)
                    (update_gene sy f genes)).
            diseases g = None \<and> (\<forall>m\<in>set (mentions g). mention_of text g m))"
proof -
  let ?add = "\<lambda>g. g\<lparr>mentions := mentions g @ [(a, b)]\<rparr>"
  let ?g1 = "update_gene sy f genes"
  have s1: "map symbol ?g1 = map symbol genes" using f by (intro update_gene_symbols) simp
  have s2: "map symbol (update_gene sy ?add ?g1) = map symbol ?g1"
    by (intro update_gene_symbols) simp
  have ok1: "diseases g = None \<and> (\<forall>m\<in>set (mentions g). mention_of text g m)" if "g \<in> set ?g1" for g
  proof -
    from update_gene_member [OF that] show ?thesis
    proof
      assume "g \<in> set genes"
      with inv(2) show ?thesis by blast
    next
      assume "\<exists>g0\<in>set genes. symbol g0 = sy \<and> g = f g0"
      then obtain g0 where g0: "g0 \<in> set genes" "g = f g0" by blast
      from f [of g0] g0(2) have "symbol g = symbol g0" "diseases g = diseases g0"
        "mentions g = mentions g0" by simp_all
      with inv(2) g0(1) mention_of_cong [of g g0 "text"] show ?thesis by auto
    qed
  qed
  have ok2: "diseases g = None \<and> (\<forall>m\<in>set (mentions g). mention_of text g m)"
    if "g \<in> set (update_gene sy ?add ?g1)" for g
  proof -
    from update_gene_member [OF that] show ?thesis
    proof
      assume "g \<in> set ?g1"
      then show ?thesis by (rule ok1)
    next
      assume "\<exists>g0\<in>set ?g1. symbol g0 = sy \<and> g = ?add g0"
      then obtain g0 where g0: "g0 \<in> set ?g1" "symbol g0 = sy" "g = ?add g0" by blast
      from g0(2,3) have sg: "symbol g = sy" by simp
      from new sg have "mention_of text g (a, b)" by (simp add: mention_of_def)
      moreover from ok1 [OF g0(1)] g0(3) mention_of_cong [of g g0 "text"]
      have "diseases g = None" "\<forall>m\<in>set (mentions g0). mention_of text g m" by auto
      ultimately show ?thesis using g0(3) by auto
    qed
  qed
  from s1 s2 inv(1) have "distinct (map symbol (update_gene sy ?add ?g1))" by simp
  with ok2 show ?thesis by blast
qed

lemma append_gene_ok:
  assumes inv: "distinct (map symbol genes)"
      "\<forall>g\<in>set genes. diseases g = None \<and> (\<forall>m\<in>set (mentions g). mention_of text g m)"
    and fresh: "sy \<notin> set (map symbol genes)"
  shows "distinct (map symbol (genes @ [\<lparr>symbol = sy, hgnc_id = h, mentions = [], diseases = None\<rparr>])) \<and>
         (\<forall>g\<in>set (genes @ [\<lparr>symbol = sy, hgnc_id = h, mentions = [], diseases = None\<rparr>]).
            diseases g = None \<and> (\<forall>m\<in>set (mentions g). mention_of text g m))"
  using assms by auto


lemma update_gene_id: "update_gene sy (\<lambda>g. g) gs = gs"
  by (induction gs) simp_all

lemma add_context_ok:
  assumes inv: "distinct (map symbol genes)"
      "\<forall>g\<in>set genes. diseases g = None \<and> (\<forall>m\<in>set (mentions g). mention_of text g m)"
    and m: "m \<in> set (finditer context_pattern text)"
  shows "\<exists>genes'. add_context text genes m = Inr genes' \<and> distinct (map symbol genes') \<and>
           (\<forall>g\<in>set genes'. diseases g = None \<and> (\<forall>m\<in>set (mentions g). mention_of text g m))"
proof -
  from m have "rx_match context_pattern text (m_start m) [] (\<lambda>j c. Some (j, c))
      = Some (m_end m, m_caps m)"
    unfolding finditer_def by (rule finditer_from_sound)
  from context_shape [OF this] obtain a where caps: "m_caps m = [(1, a, m_end m)]"
    and a: "a < m_end m" "m_end m \<le> length text"
    by blast
  let ?j = "m_end m"
  let ?sy = "upper (slice text a ?j)"
  let ?add = "\<lambda>g. g\<lparr>mentions := mentions g @ [(int a, int ?j)]\<rparr>"
  let ?new = "\<lparr>symbol = ?sy, hgnc_id = None, mentions = [], diseases = None\<rparr>"
  let ?genes1 = "if ?sy \<notin> set (map symbol genes) then genes @ [?new] else genes"
  from caps have sp: "span_of m 1 = Some (a, ?j)" by (simp add: span_of_def)
  then have gr: "group_of text m 1 = Some (slice text a ?j)" by (simp add: group_of_def)
  from sp gr have res: "add_context text genes m = Inr (update_gene ?sy ?add ?genes1)"
    by (simp add: add_context_def Let_def)
  from a have newm: "mention_of text ?new (int a, int ?j)" by (simp add: mention_of_def)
  have inv1: "distinct (map symbol ?genes1) \<and>
      (\<forall>g\<in>set ?genes1. diseases g = None \<and> (\<forall>m\<in>set (mentions g). mention_of text g m))"
  proof (cases "?sy \<notin> set (map symbol genes)")
    case True
    from append_gene_ok [OF inv True, of None] True show ?thesis by simp
  next
    case False
    with inv show ?thesis by simp
  qed
  from inv1 have d1: "distinct (map symbol ?genes1)"
    and o1: "\<forall>g\<in>set ?genes1. diseases g = None \<and> (\<forall>m\<in>set (mentions g). mention_of text g m)"
    by blast+
  from add_mention_ok [OF d1 o1 newm, of "\<lambda>g. g"]
  have "distinct (map symbol (update_gene ?sy ?add ?genes1)) \<and>
      (\<forall>g\<in>set (update_gene ?sy ?add ?genes1).
          diseases g = None \<and> (\<forall>m\<in>set (mentions g). mention_of text g m))"
    by (simp add: update_gene_id)
  with res show ?thesis by blast
qed

lemma py_int_digits:
  assumes "d < e" "e \<le> length s" "\<forall>x. d \<le> x \<and> x < e \<longrightarrow> is_digit_char (s ! x)"
  shows "\<exists>n. py_int (slice s d e) = Inr n"
proof -
  from assms(2,3) have "list_all is_digit_char (slice s d e)" by (rule slice_all)
  moreover from assms(1,2) have "slice s d e \<noteq> []"
    using slice_length [of e s d] by auto
  ultimately show ?thesis by (simp add: py_int_def isdigit_def)
qed

lemma add_explicit_ok:
  assumes inv: "distinct (map symbol genes)"
      "\<forall>g\<in>set genes. diseases g = None \<and> (\<forall>m\<in>set (mentions g). mention_of text g m)"
    and m: "m \<in> set (finditer explicit_pattern text)"
  shows "\<exists>genes'. add_explicit text genes m = Inr genes' \<and> distinct (map symbol genes') \<and>
           (\<forall>g\<in>set genes'. diseases g = None \<and> (\<forall>m\<in>set (mentions g). mention_of text g m))"
proof -
  from m have "rx_match explicit_pattern text (m_start m) [] (\<lambda>j c. Some (j, c))
      = Some (m_end m, m_caps m)"
    unfolding finditer_def by (rule finditer_from_sound)
  from explicit_shape [OF this] obtain b d e where caps: "m_caps m = [(2, d, e), (1, m_start m, b)]"
    and ord: "m_start m < b" "b \<le> d" "d < e" "e < m_end m" "m_end m \<le> length text"
    and dig: "\<forall>x. d \<le> x \<and> x < e \<longrightarrow> is_digit_char (text ! x)"
    by blast
  let ?i = "m_start m"
  let ?sy = "upper (slice text ?i b)"
  from ord have e: "e \<le> length text" by simp
  from py_int_digits [OF ord(3) e dig] obtain h where h: "py_int (slice text d e) = Inr h" ..
  let ?add = "\<lambda>g. g\<lparr>mentions := mentions g @ [(int ?i, int b)]\<rparr>"
  let ?set = "\<lambda>g. if gene.hgnc_id g = None then g\<lparr>hgnc_id := Some h\<rparr> else g"
  let ?new = "\<lparr>symbol = ?sy, hgnc_id = Some h, mentions = [], diseases = None\<rparr>"
  let ?genes1 = "if ?sy \<notin> set (map symbol genes) then genes @ [?new] else update_gene ?sy ?set genes"
  from caps have sp: "span_of m 1 = Some (?i, b)" "span_of m 2 = Some (d, e)"
    by (simp_all add: span_of_def)
  then have gr: "group_of text m 1 = Some (slice text ?i b)" "group_of text m 2 = Some (slice text d e)"
    by (simp_all add: group_of_def)
  from sp gr h have res: "add_explicit text genes m = Inr (update_gene ?sy ?add ?genes1)"
    by (simp add: add_explicit_def Let_def ebind_def)
  from ord have newm: "mention_of text \<lparr>symbol = ?sy, hgnc_id = None, mentions = [], diseases = None\<rparr>
      (int ?i, int b)"
    by (simp add: mention_of_def)
  have "distinct (map symbol (update_gene ?sy ?add ?genes1)) \<and>
      (\<forall>g\<in>set (update_gene ?sy ?add ?genes1).
          diseases g = None \<and> (\<forall>m\<in>set (mentions g). mention_of text g m))"
  proof (cases "?sy \<notin> set (map symbol genes)")
    case True
    from append_gene_ok [OF inv True, of "Some h"]
    have d1: "distinct (map symbol (genes @ [?new]))"
      and o1: "\<forall>g\<in>set (genes @ [?new]). diseases g = None \<and> (\<forall>m\<in>set (mentions g). mention_of text g m)"
      by blast+
    from add_mention_ok [OF d1 o1 newm, of "\<lambda>g. g"] True show ?thesis
      by (simp add: update_gene_id)
  next
    case False
    have "symbol (?set g) = symbol g \<and> diseases (?set g) = diseases g \<and> mentions (?set g) = mentions g"
      for g by simp
    note step = add_mention_ok [OF inv newm, of ?set, OF this]
    from False have eq: "?genes1 = update_gene ?sy ?set genes" by simp
    from step show ?thesis unfolding eq .
  qed
  with res show ?thesis by blast
qed

lemma run_loop_invariant:
  assumes step: "\<And>st x. P st \<Longrightarrow> x \<in> set xs \<Longrightarrow> \<exists>st'. f st x = Inr st' \<and> P st'"
    and init: "P st"
  shows "\<exists>st'. run_loop f st xs = Inr st' \<and> P st'"
  using assms
proof (induction xs arbitrary: st)
  case Nil
  then show ?case by simp
next
  case (Cons x xs)
  from Cons.prems(1) [OF Cons.prems(2), of x] obtain st1 where st1: "f st x = Inr st1" "P st1"
    by auto
  have "\<exists>st'. run_loop f st1 xs = Inr st' \<and> P st'"
  proof (rule Cons.IH)
    fix st y assume "P st" "y \<in> set xs"
    then show "\<exists>st'. f st y = Inr st' \<and> P st'" using Cons.prems(1) by simp
  next
    show "P st1" by (rule st1(2))
  qed
  with st1(1) show ?case by simp
qed


text \<open>
  Claim C6, as the code has it. For every text, \<open>extract_genes\<close> returns (it does not
  raise) a list with at most one record per upper-cased symbol; a record carries its
  symbol, an HGNC number or \<open>None\<close>, and mentions that lie in the text, each one
  delimiting a non-empty piece of the text whose upper-case form is the symbol. A fresh
  record has no key \<open>diseases\<close>.
\<close>

theorem extract_genes_records:
  "\<exists>genes. extract_genes text = Inr genes \<and> distinct (map symbol genes) \<and>
     (\<forall>g\<in>set genes. diseases g = None \<and> (\<forall>m\<in>set (mentions g). mention_of text g m))"
proof -
  let ?P = "\<lambda>genes. distinct (map symbol genes) \<and>
     (\<forall>g\<in>set genes. diseases g = None \<and> (\<forall>m\<in>set (mentions g). mention_of text g m))"
  have "\<exists>genes. run_loop (add_explicit text) [] (finditer explicit_pattern text) = Inr genes \<and> ?P genes"
  proof (rule run_loop_invariant [where P = ?P])
    fix st x assume "?P st" "x \<in> set (finditer explicit_pattern text)"
    then show "\<exists>st'. add_explicit text st x = Inr st' \<and> ?P st'"
      using add_explicit_ok [of st "text" x] by blast
  next
    show "?P []" by simp
  qed
  then obtain genes1 where g1: "run_loop (add_explicit text) [] (finditer explicit_pattern text) = Inr genes1"
    and p1: "?P genes1" by blast
  have "\<exists>genes. run_loop (add_context text) genes1 (finditer context_pattern text) = Inr genes \<and> ?P genes"
  proof (rule run_loop_invariant [where P = ?P])
    fix st x assume "?P st" "x \<in> set (finditer context_pattern text)"
    then show "\<exists>st'. add_context text st x = Inr st' \<and> ?P st'"
      using add_context_ok [of st "text" x] by blast
  next
    show "?P genes1" by (rule p1)
  qed
  with g1 show ?thesis by (simp add: extract_genes_def ebind_def)
qed

theorem extract_genes_records_witness:
  "extract_genes sample_text =
     Inr [\<lparr>symbol = ''TP53'', hgnc_id = Some 11998, mentions = [(0, 4), (26, 30)],
            diseases = None\<rparr>] \<and>
   (\<exists>genes. extract_genes sample_text = Inr genes \<and> distinct (map symbol genes) \<and>
      (\<forall>g\<in>set genes. diseases g = None \<and> (\<forall>m\<in>set (mentions g). mention_of sample_text g m)))"
proof -
  have v: "extract_genes sample_text =
     Inr [\<lparr>symbol = ''TP53'', hgnc_id = Some 11998, mentions = [(0, 4), (26, 30)],
            diseases = None\<rparr>]"
    by code_simp
  from extract_genes_records [of sample_text] v show ?thesis by blast
qed

text \<open>
  The claim as the specification words it, with each pair of offsets delimiting an
  occurrence of the symbol itself, fails: the context pattern ignores case and the symbol
  is upper-cased, so that the mention of \<open>TP53\<close> below delimits \<open>tp53\<close>, and the text
  holds no occurrence of \<open>TP53\<close> at all.
\<close>

theorem case_folded_mention_counterexample:
  "extract_genes ''mutation in tp53'' =
     Inr [\<lparr>symbol = ''TP53'', hgnc_id = None, mentions = [(12, 16)], diseases = None\<rparr>] \<and>
   slice ''mutation in tp53'' 12 16 = ''tp53'' \<and>
   \<not> contains ''TP53'' ''mutation in tp53''"
  by code_simp

end
